theory Spec2Isabelle
  imports Main
begin

section \<open>ConsoleBotAssistant: validated fields, contact records, stores and notes\<close>

text \<open>
  A shallow embedding of \<^verbatim>\<open>record.py\<close> and of the birthday and note operations of
  \<^verbatim>\<open>assistant.py\<close>.

  Python strings are modelled as \<^typ>\<open>string\<close>: a character is its code point, so the
  model covers the strings whose code points are below 256 (Latin-1). The text given to
  \<^verbatim>\<open>Birthday\<close> is the exception: there the characters beyond matter, so it is a list of
  code points of any size. Python integers are \<^typ>\<open>int\<close>. An exception is a value \<open>Inl e\<close> of a sum type; a method that mutates
  its object returns the object after the call beside its outcome, also when it raises.
  \<^verbatim>\<open>date.today()\<close> is a parameter \<open>today\<close> of every function that reads the clock.
\<close>

datatype error = ValueError string | OverflowError string

subsection \<open>Strings\<close>

definition esc :: char where
  "esc = CHR 0x1B"

definition newline :: char where
  "newline = CHR 0x0A"

definition dquote :: char where
  "dquote = CHR 0x22"

text \<open>The colour wrappers of the messages: \<^verbatim>\<open>ESC[91m ... ESC[0m\<close> and the like.\<close>

definition red :: "string \<Rightarrow> string" where
  "red s = esc # ''[91m'' @ s @ esc # ''[0m''"

definition green :: "string \<Rightarrow> string" where
  "green s = esc # ''[92m'' @ s @ esc # ''[0m''"

definition cyan :: "string \<Rightarrow> string" where
  "cyan s = esc # ''[38;2;10;235;190m'' @ s @ esc # ''[0m''"

definition code :: "char \<Rightarrow> nat" where
  "code c = of_char c"

definition is_ascii_digit :: "char \<Rightarrow> bool" where
  "is_ascii_digit c = (48 \<le> code c \<and> code c \<le> 57)"

definition is_ascii_upper :: "char \<Rightarrow> bool" where
  "is_ascii_upper c = (65 \<le> code c \<and> code c \<le> 90)"

definition is_ascii_lower :: "char \<Rightarrow> bool" where
  "is_ascii_lower c = (97 \<le> code c \<and> code c \<le> 122)"

text \<open>
  \<^verbatim>\<open>str.isdigit\<close>: true when the string is not empty and every character is a digit
  of Unicode (Numeric_Type Digit or Decimal). Below code point 256 these are the ten
  ASCII digits and the superscripts two, three and one (U+00B2, U+00B3, U+00B9).
\<close>

definition isdigit_char :: "char \<Rightarrow> bool" where
  "isdigit_char c = (is_ascii_digit c \<or> code c = 178 \<or> code c = 179 \<or> code c = 185)"

definition isdigit :: "string \<Rightarrow> bool" where
  "isdigit s = (s \<noteq> [] \<and> list_all isdigit_char s)"

text \<open>
  \<^verbatim>\<open>str.lower\<close>: below code point 256 the letters with a lower-case form are A to Z
  and U+00C0 to U+00DE without the multiplication sign U+00D7; the lower-case form
  is 32 code points further.
\<close>

definition lower_char :: "char \<Rightarrow> char" where
  "lower_char c =
     (if is_ascii_upper c \<or> (192 \<le> code c \<and> code c \<le> 222 \<and> code c \<noteq> 215)
      then char_of (code c + 32) else c)"

definition lower :: "string \<Rightarrow> string" where
  "lower s = map lower_char s"

text \<open>\<^verbatim>\<open>a in b\<close> on strings: \<open>a\<close> occurs in \<open>b\<close> as a contiguous substring.\<close>

definition startswith :: "string \<Rightarrow> string \<Rightarrow> bool" where
  "startswith b a = (take (length a) b = a)"

fun str_in :: "string \<Rightarrow> string \<Rightarrow> bool" where
  "str_in a [] = (a = [])"
| "str_in a (c # cs) = (startswith (c # cs) a \<or> str_in a cs)"

text \<open>\<^verbatim>\<open>sep.join(xs)\<close>.\<close>

fun join :: "string \<Rightarrow> string list \<Rightarrow> string" where
  "join sep [] = []"
| "join sep [x] = x"
| "join sep (x # y # ys) = x @ sep @ join sep (y # ys)"

text \<open>\<^verbatim>\<open>str(n)\<close> of an integer, and the zero-padded forms \<^verbatim>\<open>%02d\<close> and \<^verbatim>\<open>%04d\<close>.\<close>

definition digit_char :: "nat \<Rightarrow> char" where
  "digit_char n = ''0123456789'' ! n"

fun str_nat :: "nat \<Rightarrow> string" where
  "str_nat n = (if n < 10 then [digit_char n] else str_nat (n div 10) @ [digit_char (n mod 10)])"

declare str_nat.simps [simp del]

definition str_int :: "int \<Rightarrow> string" where
  "str_int i = (if i < 0 then CHR ''-'' # str_nat (nat (- i)) else str_nat (nat i))"

definition zfill :: "nat \<Rightarrow> string \<Rightarrow> string" where
  "zfill w s = replicate (w - length s) (CHR ''0'') @ s"

text \<open>
  A text of arbitrary characters is the list of its code points; \<open>ustr\<close> is the text of
  a string of the model.
\<close>

type_synonym ustring = "nat list"

definition ustr :: "string \<Rightarrow> ustring" where
  "ustr s = map code s"

text \<open>
  The decimal digits of Unicode (category Nd), which \<^verbatim>\<open>\d\<close> of \<^verbatim>\<open>re\<close> matches and \<^verbatim>\<open>int\<close>
  reads. Unicode encodes the ten digits of a script as consecutive code points, zero
  first. Below code point 256 the only digits are the ASCII ones. Which scripts have
  digits beyond depends on the version of Unicode, so the code points of their zeros
  are the parameter \<open>zeros\<close> of everything that reads a digit. \<open>decimal zeros c\<close> is the
  value of the digit \<open>c\<close>, if it is one.
\<close>

definition decimal :: "nat list \<Rightarrow> nat \<Rightarrow> nat option" where
  "decimal zeros c =
     (if c < 256 then (if 48 \<le> c \<and> c \<le> 57 then Some (c - 48) else None)
      else (case find (\<lambda>z. z \<le> c \<and> c \<le> z + 9) zeros of
              None \<Rightarrow> None
            | Some z \<Rightarrow> Some (c - z)))"

definition is_decimal :: "nat list \<Rightarrow> nat \<Rightarrow> bool" where
  "is_decimal zeros c = (decimal zeros c \<noteq> None)"

text \<open>
  \<^verbatim>\<open>int(s)\<close> on digits after blanks, the only texts it is given here: the blanks in
  front are skipped and each digit counts with its value.
\<close>

definition int_of_ustr :: "nat list \<Rightarrow> ustring \<Rightarrow> int" where
  "int_of_ustr zeros s =
     foldl (\<lambda>acc c. 10 * acc + (case decimal zeros c of None \<Rightarrow> 0 | Some v \<Rightarrow> int v)) 0
       (dropWhile (\<lambda>c. c = code (CHR '' '')) s)"

subsection \<open>Regular expressions of the shape the source uses\<close>

text \<open>
  The pattern of \<^verbatim>\<open>Email\<close> is a sequence of character classes, some of them repeated
  (\<^verbatim>\<open>+\<close>, \<^verbatim>\<open>{2,}\<close>). \<open>rmatch r k s\<close> holds when \<open>r\<close> matches a prefix of \<open>s\<close> and the
  continuation \<open>k\<close> accepts the rest; the repetition tries the longer match first, as
  the greedy operators of \<^verbatim>\<open>re\<close> do.
\<close>

datatype regex = Class "char \<Rightarrow> bool" | AtLeast nat "char \<Rightarrow> bool" | Seq regex regex

fun rep :: "nat \<Rightarrow> (char \<Rightarrow> bool) \<Rightarrow> (string \<Rightarrow> bool) \<Rightarrow> string \<Rightarrow> bool" where
  "rep n P k [] = (n = 0 \<and> k [])"
| "rep n P k (c # cs) = ((P c \<and> rep (n - 1) P k cs) \<or> (n = 0 \<and> k (c # cs)))"

primrec rmatch :: "regex \<Rightarrow> (string \<Rightarrow> bool) \<Rightarrow> string \<Rightarrow> bool" where
  "rmatch (Class P) k = (\<lambda>s. case s of [] \<Rightarrow> False | c # cs \<Rightarrow> P c \<and> k cs)"
| "rmatch (AtLeast n P) k = rep n P k"
| "rmatch (Seq a b) k = rmatch a (rmatch b k)"

text \<open>
  \<^verbatim>\<open>$\<close> without \<^verbatim>\<open>re.MULTILINE\<close> matches at the end of the string and also just before
  a newline that is the last character. \<^verbatim>\<open>^\<close> matches at the start of the string only,
  so \<^verbatim>\<open>re.search\<close> of a pattern \<^verbatim>\<open>^r$\<close> succeeds exactly when \<open>r\<close> matches from position 0
  up to such an end.
\<close>

definition dollar :: "string \<Rightarrow> bool" where
  "dollar s = (s = [] \<or> s = [newline])"

definition re_search_anchored :: "regex \<Rightarrow> string \<Rightarrow> bool" where
  "re_search_anchored r s = rmatch r dollar s"

subsection \<open>Dates\<close>

text \<open>
  \<^verbatim>\<open>datetime.date\<close>: a year from 1 to 9999, a month and a day of the proleptic Gregorian
  calendar. The constructor checks the fields and raises \<^verbatim>\<open>ValueError\<close>; comparison is
  that of the triples; the difference of two dates is the difference of their ordinals.
\<close>

datatype date = Date (year: int) (month: int) (day: int)

definition is_leap :: "int \<Rightarrow> bool" where
  "is_leap y = (y mod 4 = 0 \<and> (y mod 100 \<noteq> 0 \<or> y mod 400 = 0))"

definition days_in_month :: "int \<Rightarrow> int \<Rightarrow> int" where
  "days_in_month y m =
     (if m = 2 then (if is_leap y then 29 else 28)
      else if m = 4 \<or> m = 6 \<or> m = 9 \<or> m = 11 then 30 else 31)"

definition days_before_year :: "int \<Rightarrow> int" where
  "days_before_year y = (let y' = y - 1 in y' * 365 + y' div 4 - y' div 100 + y' div 400)"

definition days_before_month :: "int \<Rightarrow> int \<Rightarrow> int" where
  "days_before_month y m =
     [0, 31, 59, 90, 120, 151, 181, 212, 243, 273, 304, 334] ! nat (m - 1)
     + (if m > 2 \<and> is_leap y then 1 else 0)"

definition toordinal :: "date \<Rightarrow> int" where
  "toordinal d = days_before_year (year d) + days_before_month (year d) (month d) + day d"

definition MAXORDINAL :: int where
  "MAXORDINAL = 3652059"

definition valid_date :: "date \<Rightarrow> bool" where
  "valid_date d =
     (1 \<le> year d \<and> year d \<le> 9999 \<and> 1 \<le> month d \<and> month d \<le> 12 \<and>
      1 \<le> day d \<and> day d \<le> days_in_month (year d) (month d))"

definition mk_date :: "int \<Rightarrow> int \<Rightarrow> int \<Rightarrow> error + date" where
  "mk_date y m d =
     (if \<not> (1 \<le> y \<and> y \<le> 9999) then Inl (ValueError (''year '' @ str_int y @ '' is out of range''))
      else if \<not> (1 \<le> m \<and> m \<le> 12) then Inl (ValueError ''month must be in 1..12'')
      else if \<not> (1 \<le> d \<and> d \<le> days_in_month y m) then Inl (ValueError ''day is out of range for month'')
      else Inr (Date y m d))"

text \<open>\<^verbatim>\<open>d.replace(year=y)\<close> builds a new date and so checks the fields again.\<close>

definition replace_year :: "date \<Rightarrow> int \<Rightarrow> error + date" where
  "replace_year d y = mk_date y (month d) (day d)"

definition date_lt :: "date \<Rightarrow> date \<Rightarrow> bool" where
  "date_lt a b =
     (year a < year b \<or> (year a = year b \<and>
       (month a < month b \<or> (month a = month b \<and> day a < day b))))"

definition date_le :: "date \<Rightarrow> date \<Rightarrow> bool" where
  "date_le a b = (date_lt a b \<or> a = b)"

text \<open>
  \<^verbatim>\<open>timedelta(days=n)\<close> raises \<^verbatim>\<open>OverflowError\<close> beyond 999999999 days either way.
  \<^verbatim>\<open>d + timedelta(days=n)\<close> is the date whose ordinal is that of \<open>d\<close> plus \<open>n\<close>, and
  \<^verbatim>\<open>OverflowError\<close> when that ordinal is not between 1 and the ordinal of 9999-12-31.
  The date is reached here by stepping one day at a time; \<open>toordinal_shift_days\<close> below
  proves that its ordinal is the sum, and \<open>date_order_toordinal\<close> that the comparison of
  the triples is the comparison of the ordinals.
\<close>

definition next_day :: "date \<Rightarrow> date" where
  "next_day d =
     (if day d < days_in_month (year d) (month d) then Date (year d) (month d) (day d + 1)
      else if month d < 12 then Date (year d) (month d + 1) 1
      else Date (year d + 1) 1 1)"

definition prev_day :: "date \<Rightarrow> date" where
  "prev_day d =
     (if 1 < day d then Date (year d) (month d) (day d - 1)
      else if 1 < month d then Date (year d) (month d - 1) (days_in_month (year d) (month d - 1))
      else Date (year d - 1) 12 31)"

fun forward :: "nat \<Rightarrow> date \<Rightarrow> date" where
  "forward 0 d = d"
| "forward (Suc n) d = forward n (next_day d)"

fun backward :: "nat \<Rightarrow> date \<Rightarrow> date" where
  "backward 0 d = d"
| "backward (Suc n) d = backward n (prev_day d)"

definition shift_days :: "int \<Rightarrow> date \<Rightarrow> date" where
  "shift_days n d = (if 0 \<le> n then forward (nat n) d else backward (nat (- n)) d)"

definition timedelta_days :: "int \<Rightarrow> error + int" where
  "timedelta_days n =
     (if - 999999999 \<le> n \<and> n \<le> 999999999 then Inr n
      else Inl (OverflowError (''days='' @ str_int n @ ''; must have magnitude <= 999999999'')))"

definition date_add_days :: "date \<Rightarrow> int \<Rightarrow> error + date" where
  "date_add_days d n =
     (case timedelta_days n of
        Inl e \<Rightarrow> Inl e
      | Inr k \<Rightarrow>
         (let o_new = toordinal d + k
          in if 0 < o_new \<and> o_new \<le> MAXORDINAL then Inr (shift_days k d)
             else Inl (OverflowError ''date value out of range'')))"

text \<open>\<^verbatim>\<open>str(d)\<close> of a date is its ISO form \<^verbatim>\<open>%04d-%02d-%02d\<close>.\<close>

definition isoformat :: "date \<Rightarrow> string" where
  "isoformat d =
     zfill 4 (str_int (year d)) @ ''-'' @ zfill 2 (str_int (month d)) @ ''-'' @ zfill 2 (str_int (day d))"

text \<open>
  \<^verbatim>\<open>d.strftime("%Y.%m.%d")\<close>. The month and the day are padded to two digits. The
  year is printed by the C library: some pad it to four digits and some (glibc) do
  not, so the padding of the year is the parameter \<open>pad\<close>.
\<close>

definition strftime_Ymd :: "bool \<Rightarrow> date \<Rightarrow> string" where
  "strftime_Ymd pad d =
     (if pad then zfill 4 (str_int (year d)) else str_int (year d))
     @ ''.'' @ zfill 2 (str_int (month d)) @ ''.'' @ zfill 2 (str_int (day d))"

text \<open>
  \<^verbatim>\<open>datetime.strptime(s, "%Y.%m.%d")\<close> matches \<open>s\<close> from its start against the regular
  expression that \<^verbatim>\<open>_strptime\<close> builds from the format,
  \<^verbatim>\<open>(?P<Y>\d\d\d\d)\.(?P<m>1[0-2]|0[1-9]|[1-9])\.(?P<d>3[0-1]|[1-2]\d|0[1-9]|[1-9]| [1-9])\<close>,
  raises \<^verbatim>\<open>ValueError\<close> when there is no match or when the match does not reach the end
  of \<open>s\<close>, reads the three groups with \<^verbatim>\<open>int\<close>, and then builds the date, which checks
  the calendar. The alternatives of a group are listed in the order in which the
  matcher tries them; the match found is the first one of the enumeration. \<^verbatim>\<open>\d\<close> is
  any decimal digit of Unicode, while the classes written with ASCII digits match
  these only. The messages of a failed match are shortened (they also quote the
  data); \<^verbatim>\<open>Birthday\<close> replaces them anyway.
\<close>

definition is_chr :: "char \<Rightarrow> nat \<Rightarrow> bool" where
  "is_chr ch c = (c = code ch)"

definition in_range :: "char \<Rightarrow> char \<Rightarrow> nat \<Rightarrow> bool" where
  "in_range lo hi c = (code lo \<le> c \<and> c \<le> code hi)"

definition alt2 :: "(nat \<Rightarrow> bool) \<Rightarrow> (nat \<Rightarrow> bool) \<Rightarrow> ustring \<Rightarrow> (ustring \<times> ustring) list" where
  "alt2 P Q s = (if 2 \<le> length s \<and> P (s ! 0) \<and> Q (s ! 1) then [(take 2 s, drop 2 s)] else [])"

definition alt1 :: "(nat \<Rightarrow> bool) \<Rightarrow> ustring \<Rightarrow> (ustring \<times> ustring) list" where
  "alt1 P s = (if 1 \<le> length s \<and> P (s ! 0) then [(take 1 s, drop 1 s)] else [])"

definition group_Y :: "nat list \<Rightarrow> ustring \<Rightarrow> (ustring \<times> ustring) list" where
  "group_Y zeros s =
     (if 4 \<le> length s \<and> list_all (is_decimal zeros) (take 4 s) then [(take 4 s, drop 4 s)] else [])"

definition group_m :: "ustring \<Rightarrow> (ustring \<times> ustring) list" where
  "group_m s =
     alt2 (is_chr (CHR ''1'')) (in_range (CHR ''0'') (CHR ''2'')) s
     @ alt2 (is_chr (CHR ''0'')) (in_range (CHR ''1'') (CHR ''9'')) s
     @ alt1 (in_range (CHR ''1'') (CHR ''9'')) s"

definition group_d :: "nat list \<Rightarrow> ustring \<Rightarrow> (ustring \<times> ustring) list" where
  "group_d zeros s =
     alt2 (is_chr (CHR ''3'')) (in_range (CHR ''0'') (CHR ''1'')) s
     @ alt2 (in_range (CHR ''1'') (CHR ''2'')) (is_decimal zeros) s
     @ alt2 (is_chr (CHR ''0'')) (in_range (CHR ''1'') (CHR ''9'')) s
     @ alt1 (in_range (CHR ''1'') (CHR ''9'')) s
     @ alt2 (is_chr (CHR '' '')) (in_range (CHR ''1'') (CHR ''9'')) s"

definition dot :: "ustring \<Rightarrow> ustring list" where
  "dot s = (case s of [] \<Rightarrow> [] | c # cs \<Rightarrow> if is_chr (CHR ''.'') c then [cs] else [])"

definition format_matches :: "nat list \<Rightarrow> ustring \<Rightarrow> (ustring \<times> ustring \<times> ustring \<times> ustring) list" where
  "format_matches zeros s =
     [(Y, m, d, r5). (Y, r1) \<leftarrow> group_Y zeros s, r2 \<leftarrow> dot r1, (m, r3) \<leftarrow> group_m r2,
                     r4 \<leftarrow> dot r3, (d, r5) \<leftarrow> group_d zeros r4]"

definition strptime_Ymd :: "nat list \<Rightarrow> ustring \<Rightarrow> error + date" where
  "strptime_Ymd zeros s =
     (case format_matches zeros s of
        [] \<Rightarrow> Inl (ValueError ''time data does not match format'')
      | (Y, m, d, rest) # _ \<Rightarrow>
          if rest \<noteq> [] then Inl (ValueError ''unconverted data remains'')
          else mk_date (int_of_ustr zeros Y) (int_of_ustr zeros m) (int_of_ustr zeros d))"

subsection \<open>Field validators\<close>

text \<open>
  Each setter either stores the value or raises \<^verbatim>\<open>ValueError\<close>; the constructor of a
  field runs the setter, so constructing is modelled by the setter's function.
\<close>

definition email_msg :: string where
  "email_msg = red ''Invalid email format.''"

definition date_msg :: string where
  "date_msg = red ''Invalid date format. Correct format: YYYY.MM.DD''"

definition phone_msg :: string where
  "phone_msg = red ''The phone number should be digits only and have 10 symbols.''"

text \<open>The pattern \<^verbatim>\<open>^[a-zA-Z0-9._]+@[a-zA-Z0-9.-]+\.[a-zA-Z]{2,}$\<close> between its anchors.\<close>

definition is_alpha :: "char \<Rightarrow> bool" where
  "is_alpha c = (is_ascii_lower c \<or> is_ascii_upper c)"

definition local_char :: "char \<Rightarrow> bool" where
  "local_char c = (is_ascii_lower c \<or> is_ascii_upper c \<or> is_ascii_digit c \<or> c = CHR ''.'' \<or> c = CHR ''_'')"

definition domain_char :: "char \<Rightarrow> bool" where
  "domain_char c = (is_ascii_lower c \<or> is_ascii_upper c \<or> is_ascii_digit c \<or> c = CHR ''.'' \<or> c = CHR ''-'')"

definition email_pattern :: regex where
  "email_pattern =
     Seq (AtLeast 1 local_char)
    (Seq (Class (\<lambda>c. c = CHR ''@''))
    (Seq (AtLeast 1 domain_char)
    (Seq (Class (\<lambda>c. c = CHR ''.''))
         (AtLeast 2 is_alpha))))"

definition Email :: "string \<Rightarrow> error + string" where
  "Email v = (if \<not> re_search_anchored email_pattern v then Inl (ValueError email_msg) else Inr v)"

definition Birthday :: "nat list \<Rightarrow> ustring \<Rightarrow> error + date" where
  "Birthday zeros v = (case strptime_Ymd zeros v of Inl e \<Rightarrow> Inl (ValueError date_msg) | Inr d \<Rightarrow> Inr d)"

definition Birthday_str :: "bool \<Rightarrow> date \<Rightarrow> string" where
  "Birthday_str pad d = strftime_Ymd pad d"

definition Phone :: "string \<Rightarrow> error + string" where
  "Phone v = (if length v \<noteq> 10 \<or> \<not> isdigit v then Inl (ValueError phone_msg) else Inr v)"

subsection \<open>Contact records\<close>

text \<open>
  A \<^verbatim>\<open>Record\<close> holds a name, the list of its phones (each a validated \<^verbatim>\<open>Phone\<close>, kept
  here as its value) and an optional birthday, email and address. No method shares a
  \<^verbatim>\<open>Phone\<close> object between two places of a list, so the list of values is the state.
\<close>

record Record =
  name :: string
  phones :: "string list"
  birthday :: "date option"
  email :: "string option"
  address :: "string option"

definition Record_init :: "string \<Rightarrow> Record" where
  "Record_init n = \<lparr>name = n, phones = [], birthday = None, email = None, address = None\<rparr>"

text \<open>
  \<^verbatim>\<open>add_phone\<close>: \<^verbatim>\<open>phone = Phone(value); self.phones.append(phone)\<close>. The pair is the
  outcome of the call and the record after it.
\<close>

definition add_phone :: "Record \<Rightarrow> string \<Rightarrow> (error + unit) \<times> Record" where
  "add_phone r v =
     (case Phone v of
        Inl e \<Rightarrow> (Inl e, r)
      | Inr phone \<Rightarrow> (Inr (), r\<lparr>phones := phones r @ [phone]\<rparr>))"

definition add_email :: "Record \<Rightarrow> string \<Rightarrow> (error + unit) \<times> Record" where
  "add_email r v =
     (case Email v of
        Inl e \<Rightarrow> (Inl e, r)
      | Inr x \<Rightarrow> (Inr (), r\<lparr>email := Some x\<rparr>))"

definition add_address :: "Record \<Rightarrow> string \<Rightarrow> Record" where
  "add_address r v = r\<lparr>address := Some v\<rparr>"

definition add_birthday :: "nat list \<Rightarrow> Record \<Rightarrow> ustring \<Rightarrow> (error + unit) \<times> Record" where
  "add_birthday zeros r v =
     (case Birthday zeros v of
        Inl e \<Rightarrow> (Inl e, r)
      | Inr d \<Rightarrow> (Inr (), r\<lparr>birthday := Some d\<rparr>))"

text \<open>
  \<^verbatim>\<open>edit_phone\<close> walks the phones; at the first one equal to \<open>old_phone\<close> it assigns
  \<open>new_phone\<close> through the setter of \<^verbatim>\<open>Phone\<close> (which validates before it stores) and
  returns the joined list; with no such phone it returns \<^verbatim>\<open>None\<close>. \<open>edit_loop\<close> gives
  the list of phones after the loop, or \<open>None\<close> when no phone was equal.
\<close>

fun edit_loop :: "string list \<Rightarrow> string \<Rightarrow> string \<Rightarrow> error + string list option" where
  "edit_loop [] old_phone new_phone = Inr None"
| "edit_loop (p # ps) old_phone new_phone =
     (if p = old_phone then
        (case Phone new_phone of
           Inl e \<Rightarrow> Inl e
         | Inr v \<Rightarrow> Inr (Some (v # ps)))
      else
        (case edit_loop ps old_phone new_phone of
           Inl e \<Rightarrow> Inl e
         | Inr None \<Rightarrow> Inr None
         | Inr (Some ps') \<Rightarrow> Inr (Some (p # ps'))))"

definition edit_phone :: "Record \<Rightarrow> string \<Rightarrow> string \<Rightarrow> (error + string option) \<times> Record" where
  "edit_phone r old_phone new_phone =
     (case edit_loop (phones r) old_phone new_phone of
        Inl e \<Rightarrow> (Inl e, r)
      | Inr None \<Rightarrow> (Inr None, r)
      | Inr (Some ps') \<Rightarrow> (Inr (Some (''Phones: '' @ join ''; '' ps')), r\<lparr>phones := ps'\<rparr>))"

text \<open>
  \<^verbatim>\<open>days_to_birthday\<close> returns \<^verbatim>\<open>None\<close>, the string \<^verbatim>\<open>"Birthday today"\<close> or a number of
  days. Both calls of \<^verbatim>\<open>replace\<close> and the subtraction of one day can raise.
\<close>

datatype days_result = No_birthday | Birthday_today | Days int

definition days_to_birthday :: "date \<Rightarrow> Record \<Rightarrow> error + days_result" where
  "days_to_birthday today r =
     (case birthday r of
        None \<Rightarrow> Inr No_birthday
      | Some b \<Rightarrow>
         (case replace_year b (year today) of
            Inl e \<Rightarrow> Inl e
          | Inr birthday_date \<Rightarrow>
              if today = birthday_date then Inr Birthday_today
              else
               (case date_add_days today (- 1) of
                  Inl e \<Rightarrow> Inl e
                | Inr yesterday \<Rightarrow>
                    if date_le birthday_date yesterday then
                      (case replace_year birthday_date (year today + 1) of
                         Inl e \<Rightarrow> Inl e
                       | Inr next_date \<Rightarrow> Inr (Days (toordinal next_date - toordinal today)))
                    else Inr (Days (toordinal birthday_date - toordinal today)))))"

definition str_days :: "days_result \<Rightarrow> string" where
  "str_days x = (case x of No_birthday \<Rightarrow> ''None'' | Birthday_today \<Rightarrow> ''Birthday today'' | Days n \<Rightarrow> str_int n)"

definition str_opt :: "string option \<Rightarrow> string" where
  "str_opt x = (case x of None \<Rightarrow> ''None'' | Some s \<Rightarrow> s)"

text \<open>
  \<^verbatim>\<open>Record.__str__\<close>: the fields separated by commas; the line continuations inside
  the literal leave 12, 16 and 20 blanks in it. It calls \<^verbatim>\<open>days_to_birthday\<close> last.
\<close>

definition str_Record :: "bool \<Rightarrow> date \<Rightarrow> Record \<Rightarrow> error + string" where
  "str_Record pad today r =
     (case days_to_birthday today r of
        Inl e \<Rightarrow> Inl e
      | Inr days \<Rightarrow>
          Inr (name r @ '','' @ replicate 12 (CHR '' '') @ join ''; '' (phones r) @ '',''
               @ replicate 16 (CHR '' '') @ str_opt (map_option (Birthday_str pad) (birthday r))
               @ '', '' @ str_opt (email r) @ '', '' @ replicate 20 (CHR '' '')
               @ str_opt (address r) @ '', '' @ str_days days))"

subsection \<open>The contact store\<close>

text \<open>
  \<^verbatim>\<open>AddressBook\<close> is a \<^verbatim>\<open>UserDict\<close> from names to records. A Python dictionary keeps
  the order of insertion, and \<^verbatim>\<open>search\<close> builds its result in that order, so the store
  is the list of its items.
\<close>

type_synonym AddressBook = "(string \<times> Record) list"

definition contains_key :: "AddressBook \<Rightarrow> string \<Rightarrow> bool" where
  "contains_key book k = (k \<in> fst ` set book)"

definition pop :: "AddressBook \<Rightarrow> string \<Rightarrow> AddressBook" where
  "pop book k = filter (\<lambda>item. fst item \<noteq> k) book"

fun add_record :: "AddressBook \<Rightarrow> Record \<Rightarrow> AddressBook" where
  "add_record [] r = [(name r, r)]"
| "add_record ((k, x) # items) r = (if k = name r then (k, r) # items else (k, x) # add_record items r)"

definition find :: "AddressBook \<Rightarrow> string \<Rightarrow> Record option" where
  "find book k = map_of book k"

definition usage_msg :: string where
  "usage_msg = red ''You need at least 3 letters to search by name or 3 digit to search by phone number.''"

text \<open>
  The inner loop of \<^verbatim>\<open>search\<close>: one more \<^verbatim>\<open>str(rec)\<close> for every phone that contains the
  term. \<open>result\<close> is the string built so far.
\<close>

fun search_phones :: "bool \<Rightarrow> date \<Rightarrow> string \<Rightarrow> Record \<Rightarrow> string list \<Rightarrow> string \<Rightarrow> error + string" where
  "search_phones pad today v rec [] result = Inr result"
| "search_phones pad today v rec (item # items) result =
     (if str_in v item then
        (case str_Record pad today rec of
           Inl e \<Rightarrow> Inl e
         | Inr s \<Rightarrow> search_phones pad today v rec items (result @ s))
      else search_phones pad today v rec items result)"

fun search_items :: "bool \<Rightarrow> date \<Rightarrow> string \<Rightarrow> (string \<times> Record) list \<Rightarrow> string \<Rightarrow> error + string" where
  "search_items pad today v [] result = Inr result"
| "search_items pad today v ((n, rec) # items) result =
     (case (if str_in (lower v) (lower n) then
              (case str_Record pad today rec of
                 Inl e \<Rightarrow> Inl e
               | Inr s \<Rightarrow> Inr (result @ s @ [newline]))
            else Inr result) of
        Inl e \<Rightarrow> Inl e
      | Inr result1 \<Rightarrow>
         (case search_phones pad today v rec (phones rec) result1 of
            Inl e \<Rightarrow> Inl e
          | Inr result2 \<Rightarrow> search_items pad today v items result2))"

definition search :: "bool \<Rightarrow> date \<Rightarrow> AddressBook \<Rightarrow> string \<Rightarrow> error + string option" where
  "search pad today book v =
     (if length v < 3 then Inr (Some usage_msg)
      else
       (case search_items pad today v book [] of
          Inl e \<Rightarrow> Inl e
        | Inr result \<Rightarrow> if length result \<noteq> 0 then Inr (Some result) else Inr None))"

text \<open>\<^verbatim>\<open>delete\<close> returns its message and the store after the call.\<close>

definition delete :: "AddressBook \<Rightarrow> string \<Rightarrow> string \<times> AddressBook" where
  "delete book n =
     (if contains_key book n then (''The contact '' @ n @ '' has been deleted.'', pop book n)
      else (''The contact '' @ n @ '' not found.'', book))"

subsection \<open>Birthdays within a number of days\<close>

text \<open>
  \<^verbatim>\<open>BirthAssistant.birthday_in_given_days\<close>: the loop over the items of the store. A
  record is appended as \<^verbatim>\<open>f"{name}; {rec.birthday.value}; {rec.days_to_birthday()}"\<close>.
\<close>

fun given_days_loop :: "date \<Rightarrow> date \<Rightarrow> (string \<times> Record) list \<Rightarrow> string list \<Rightarrow> error + string list" where
  "given_days_loop date_today date_value [] contact_birth = Inr contact_birth"
| "given_days_loop date_today date_value ((n, rec) # items) contact_birth =
     (case birthday rec of
        None \<Rightarrow> given_days_loop date_today date_value items contact_birth
      | Some b \<Rightarrow>
         (case replace_year b (year date_today) of
            Inl e \<Rightarrow> Inl e
          | Inr birth \<Rightarrow>
             (case date_add_days date_today (- 1) of
                Inl e \<Rightarrow> Inl e
              | Inr yesterday \<Rightarrow>
                 (case (if date_lt birth yesterday then replace_year birth (year date_today + 1)
                        else Inr birth) of
                    Inl e \<Rightarrow> Inl e
                  | Inr birth' \<Rightarrow>
                      if date_le date_today birth' \<and> date_le birth' date_value then
                        (case days_to_birthday date_today rec of
                           Inl e \<Rightarrow> Inl e
                         | Inr days \<Rightarrow>
                             given_days_loop date_today date_value items
                               (contact_birth @ [n @ ''; '' @ isoformat b @ ''; '' @ str_days days]))
                      else given_days_loop date_today date_value items contact_birth))))"

text \<open>The result is the lines printed and the value returned.\<close>

definition birthday_in_given_days ::
  "date \<Rightarrow> AddressBook \<Rightarrow> int \<Rightarrow> error + (string list \<times> string list option)" where
  "birthday_in_given_days date_today phone_book v =
     (case date_add_days date_today v of
        Inl e \<Rightarrow> Inl e
      | Inr date_value \<Rightarrow>
         (case given_days_loop date_today date_value phone_book [] of
            Inl e \<Rightarrow> Inl e
          | Inr contact_birth \<Rightarrow>
              if length contact_birth = 0 then Inr ([cyan ''No Birthday during this period.''], None)
              else Inr ([], Some contact_birth)))"

subsection \<open>Notes\<close>

record Note =
  content :: string
  tags :: "string list"

text \<open>
  The note operations of \<^verbatim>\<open>NotesAssistant\<close> work on the list \<^verbatim>\<open>self.notes\<close>; they
  return nothing and print their report. The model returns the lines printed and the
  list of notes after the call.
\<close>

definition add_note :: "Note list \<Rightarrow> string \<Rightarrow> string list option \<Rightarrow> Note list" where
  "add_note notes c ts = notes @ [\<lparr>content = c, tags = (case ts of None \<Rightarrow> [] | Some t \<Rightarrow> t)\<rparr>]"

definition search_notes_by_tag :: "Note list \<Rightarrow> string \<Rightarrow> Note list" where
  "search_notes_by_tag notes tag = filter (\<lambda>note. tag \<in> set (tags note)) notes"

fun edit_note_content :: "Note list \<Rightarrow> string \<Rightarrow> string \<Rightarrow> string list \<times> Note list" where
  "edit_note_content [] tag new_content = ([], [])"
| "edit_note_content (note # notes) tag new_content =
     (let out1 = (if tag \<notin> set (tags note) then [red ''Invalid note index.''] else []);
          (out2, note') = (if tag \<in> set (tags note)
                           then ([green ''Note update successfully.''], note\<lparr>content := new_content\<rparr>)
                           else ([], note));
          (out, notes') = edit_note_content notes tag new_content
      in (out1 @ out2 @ out, note' # notes'))"

definition delete_note_by_index :: "Note list \<Rightarrow> string \<Rightarrow> string list \<times> Note list" where
  "delete_note_by_index notes tag =
     (let initial_len = length notes;
          notes' = filter (\<lambda>note. tag \<notin> set (tags note)) notes
      in if length notes' = initial_len
         then ([red (''No note found with tag '' @ [dquote] @ tag @ [dquote] @ ''.'')], notes')
         else ([green (''Note with tag '' @ [dquote] @ tag @ [dquote] @ '' deleted successfully.'')], notes'))"

subsection \<open>The specification's notions, and the examples\<close>

text \<open>
  The specification asks a phone for exactly 10 characters, all decimal digits.
\<close>

definition spec_phone :: "string \<Rightarrow> bool" where
  "spec_phone s = (length s = 10 \<and> list_all is_ascii_digit s)"

text \<open>Ten times the superscript two (U+00B2): a digit for \<^verbatim>\<open>str.isdigit\<close>, not a decimal digit.\<close>

definition superscript_twos :: string where
  "superscript_twos =
     [CHR 0xB2, CHR 0xB2, CHR 0xB2, CHR 0xB2, CHR 0xB2, CHR 0xB2, CHR 0xB2, CHR 0xB2, CHR 0xB2, CHR 0xB2]"

text \<open>
  The specification's pattern of an email, \<^verbatim>\<open>local@domain.tld\<close>: one or more letters,
  digits, dots or underscores, the at sign, one or more letters, digits, dots or hyphens,
  a dot, and two or more letters.
\<close>

definition spec_email :: "string \<Rightarrow> bool" where
  "spec_email s =
     (\<exists>loc dom tld. s = loc @ ''@'' @ dom @ ''.'' @ tld \<and>
        loc \<noteq> [] \<and> list_all local_char loc \<and>
        dom \<noteq> [] \<and> list_all domain_char dom \<and>
        2 \<le> length tld \<and> list_all is_alpha tld)"

text \<open>An address followed by one newline character.\<close>

definition newline_email :: string where
  "newline_email = ''a.b@x.co'' @ [newline]"

text \<open>
  What \<^verbatim>\<open>search\<close> is specified to find: an item of the store appears once, by name,
  when its name contains the term without regard to case, and once more for each of
  its phones that contains the term. The flag tells the appearance by name, which is
  followed by a newline in the result. \<open>render_all\<close> is the text of a list of
  appearances; a record that cannot be rendered raises.
\<close>

definition appearances :: "string \<Rightarrow> string \<times> Record \<Rightarrow> (Record \<times> bool) list" where
  "appearances v item =
     (if str_in (lower v) (lower (fst item)) then [(snd item, True)] else [])
     @ map (\<lambda>p. (snd item, False)) (filter (str_in v) (phones (snd item)))"

definition occurrences :: "string \<Rightarrow> AddressBook \<Rightarrow> (Record \<times> bool) list" where
  "occurrences v book = concat (map (appearances v) book)"

fun render_all :: "bool \<Rightarrow> date \<Rightarrow> (Record \<times> bool) list \<Rightarrow> error + string" where
  "render_all pad today [] = Inr []"
| "render_all pad today ((rec, by_name) # xs) =
     (case str_Record pad today rec of
        Inl e \<Rightarrow> Inl e
      | Inr s \<Rightarrow>
         (case render_all pad today xs of
            Inl e \<Rightarrow> Inl e
          | Inr t \<Rightarrow> Inr (s @ (if by_name then [newline] else []) @ t)))"

definition prepend :: "string \<Rightarrow> error + string \<Rightarrow> error + string" where
  "prepend acc x = (case x of Inl e \<Rightarrow> Inl e | Inr s \<Rightarrow> Inr (acc @ s))"

text \<open>
  The texts that \<^verbatim>\<open>Birthday\<close> accepts for a date: the year in four decimal digits, the
  month in ASCII digits with or without its leading zero, and the day in ASCII digits
  with or without its leading zero or with a blank in its place; the last digit of a
  day from 10 to 29 may be any decimal digit again. \<open>digit_forms zeros v\<close> lists the
  decimal digits of value \<open>v\<close>: the ASCII one, and the one of each further script.
\<close>

definition digit_forms :: "nat list \<Rightarrow> nat \<Rightarrow> nat list" where
  "digit_forms zeros v = filter (\<lambda>c. decimal zeros c = Some v) ((48 + v) # map (\<lambda>z. z + v) zeros)"

definition year_forms :: "nat list \<Rightarrow> int \<Rightarrow> ustring list" where
  "year_forms zeros y =
     [[a, b, c, e]. a \<leftarrow> digit_forms zeros (nat y div 1000), b \<leftarrow> digit_forms zeros (nat y div 100 mod 10),
                    c \<leftarrow> digit_forms zeros (nat y div 10 mod 10), e \<leftarrow> digit_forms zeros (nat y mod 10)]"

definition month_forms :: "int \<Rightarrow> ustring list" where
  "month_forms m = map ustr (zfill 2 (str_int m) # (if m < 10 then [str_int m] else []))"

definition day_forms :: "nat list \<Rightarrow> int \<Rightarrow> ustring list" where
  "day_forms zeros d =
     (if 10 \<le> d \<and> d \<le> 29 then [[48 + nat d div 10, u]. u \<leftarrow> digit_forms zeros (nat d mod 10)]
      else map ustr (zfill 2 (str_int d) # (if d < 10 then [str_int d, CHR '' '' # str_int d] else [])))"

definition accepted_forms :: "nat list \<Rightarrow> date \<Rightarrow> ustring list" where
  "accepted_forms zeros dt =
     [Y @ ustr ''.'' @ M @ ustr ''.'' @ D.
        Y \<leftarrow> year_forms zeros (year dt), M \<leftarrow> month_forms (month dt), D \<leftarrow> day_forms zeros (day dt)]"

text \<open>
  The specification's words: the text has the format \<^verbatim>\<open>YYYY.MM.DD\<close> with valid
  calendar values, that is, it is the zero-padded form of a valid date.
\<close>

definition spec_birthday :: "ustring \<Rightarrow> bool" where
  "spec_birthday s =
     (\<exists>dt. valid_date dt \<and>
        s = ustr (zfill 4 (str_int (year dt)) @ ''.'' @ zfill 2 (str_int (month dt)) @ ''.'' @ zfill 2 (str_int (day dt))))"

text \<open>
  The texts that the group \<^verbatim>\<open>m\<close> of the format can match, and the ones that the group
  \<^verbatim>\<open>d\<close> can match by its alternatives in ASCII digits, in the order of the
  alternatives. \<open>one_digit lead\<close> is a digit from 1 to 9 after the character \<open>lead\<close>, or
  alone when \<open>lead\<close> is the hyphen.
\<close>

definition one_digit :: "char \<Rightarrow> ustring list" where
  "one_digit lead = map (\<lambda>c. ustr (if lead = CHR ''-'' then [c] else [lead, c])) ''123456789''"

definition month_tokens :: "ustring list" where
  "month_tokens = map ustr [''10'', ''11'', ''12''] @ one_digit (CHR ''0'') @ one_digit (CHR ''-'')"

definition day_tokens :: "ustring list" where
  "day_tokens =
     map ustr [''30'', ''31''] @ one_digit (CHR ''0'') @ one_digit (CHR ''-'') @ one_digit (CHR '' '')"

text \<open>
  The zeros of the decimal digits beyond Latin-1 in Unicode 14.0, the version of
  CPython 3.11: 65 runs of ten digits, among them the Arabic-Indic digits from U+0660
  and the fullwidth digits from U+FF10.
\<close>

definition unicode_zeros :: "nat list" where
  "unicode_zeros =
     [1632, 1776, 1984, 2406, 2534, 2662, 2790, 2918, 3046, 3174, 3302, 3430, 3558, 3664, 3792,
      3872, 4160, 4240, 6112, 6160, 6470, 6608, 6784, 6800, 6992, 7088, 7232, 7248, 42528, 43216,
      43264, 43472, 43504, 43600, 44016, 65296, 66720, 68912, 69734, 69872, 69942, 70096, 70384,
      70736, 70864, 71248, 71360, 71472, 71904, 72016, 72784, 73040, 73120, 92768, 92864, 93008,
      120782, 120792, 120802, 120812, 120822, 123200, 123632, 125264, 130032]"

text \<open>
  A date written without leading zeros; 2024-02-19 with the Arabic-Indic nine (U+0669)
  as its last digit; and 2024-02-29 with the year in fullwidth digits.
\<close>

definition short_birthday :: ustring where
  "short_birthday = ustr ''2024.2.9''"

definition arabic_birthday :: ustring where
  "arabic_birthday = ustr ''2024.02.1'' @ [1641]"

definition fullwidth_birthday :: ustring where
  "fullwidth_birthday = [65298, 65296, 65298, 65300] @ ustr ''.02.29''"

text \<open>
  A date of the calendar, whatever its year: the dates that stepping by days stays in.
\<close>

definition calendar_date :: "date \<Rightarrow> bool" where
  "calendar_date d = (1 \<le> month d \<and> month d \<le> 12 \<and> 1 \<le> day d \<and> day d \<le> days_in_month (year d) (month d))"

text \<open>
  The anniversary of a birthday in a year, and the next anniversary by the rule of
  \<^verbatim>\<open>days_to_birthday\<close>: this year's one, or next year's when this year's is before
  today. A regular birthday is any valid date but 29 February; an ordinary day is a
  valid date from the year 2 to the year 9998, so that yesterday and next year exist.
\<close>

definition anniversary :: "date \<Rightarrow> int \<Rightarrow> date" where
  "anniversary b y = Date y (month b) (day b)"

definition next_anniversary :: "date \<Rightarrow> date \<Rightarrow> date" where
  "next_anniversary today b =
     (if date_lt (anniversary b (year today)) today then anniversary b (year today + 1)
      else anniversary b (year today))"

definition regular_birthday :: "date \<Rightarrow> bool" where
  "regular_birthday b = (valid_date b \<and> \<not> (month b = 2 \<and> day b = 29))"

definition ordinary_day :: "date \<Rightarrow> bool" where
  "ordinary_day today = (valid_date today \<and> 2 \<le> year today \<and> year today \<le> 9998)"

text \<open>
  What \<^verbatim>\<open>birthday_in_given_days\<close> looks at: it moves the anniversary to next year only
  when it is before yesterday. \<open>listed\<close> tells whether an item is in the window up to
  \<open>date_value\<close>, \<open>entry\<close> is its line of the result, and a regular book holds regular
  birthdays only.
\<close>

definition query_anniversary :: "date \<Rightarrow> date \<Rightarrow> date" where
  "query_anniversary today b =
     (if date_lt (anniversary b (year today)) (prev_day today) then anniversary b (year today + 1)
      else anniversary b (year today))"

definition listed :: "date \<Rightarrow> date \<Rightarrow> string \<times> Record \<Rightarrow> bool" where
  "listed today date_value item =
     (case birthday (snd item) of
        None \<Rightarrow> False
      | Some b \<Rightarrow> date_le today (query_anniversary today b) \<and> date_le (query_anniversary today b) date_value)"

definition entry :: "date \<Rightarrow> string \<times> Record \<Rightarrow> string" where
  "entry today item =
     fst item @ ''; '' @ (case birthday (snd item) of None \<Rightarrow> [] | Some b \<Rightarrow> isoformat b) @ ''; ''
     @ (case days_to_birthday today (snd item) of Inl e \<Rightarrow> [] | Inr days \<Rightarrow> str_days days)"

definition regular_book :: "AddressBook \<Rightarrow> bool" where
  "regular_book book = (\<forall>item \<in> set book. \<forall>b. birthday (snd item) = Some b \<longrightarrow> regular_birthday b)"

text \<open>The records of the examples.\<close>

definition john :: Record where
  "john = Record_init ''John''\<lparr>phones := [''0501234567'', ''0671230000'']\<rparr>"

definition leap_child :: Record where
  "leap_child = Record_init ''Ann''\<lparr>birthday := Some (Date 2024 2 29)\<rparr>"

definition annabel :: Record where
  "annabel = Record_init ''Annabel''\<lparr>phones := [''0981112233''], birthday := Some (Date 2024 2 29)\<rparr>"

definition contacts :: AddressBook where
  "contacts = [(''John'', john), (''Annabel'', annabel)]"

definition born_yesterday :: Record where
  "born_yesterday = Record_init ''Ann''\<lparr>birthday := Some (Date 1990 3 9)\<rparr>"

section \<open>Properties\<close>

subsection \<open>Phone\<close>

text \<open>
  C3, amended. Constructing a \<^verbatim>\<open>Phone\<close> from \<open>s\<close> succeeds exactly when \<open>s\<close> has 10
  characters that all pass \<^verbatim>\<open>str.isdigit\<close>; the stored value is then \<open>s\<close> itself, and
  every other string is rejected with the validator's \<^verbatim>\<open>ValueError\<close>. Every string of
  10 decimal digits is accepted. (The superscript digits pass \<^verbatim>\<open>str.isdigit\<close> too, so
  "all decimal digits" is not necessary for acceptance.)
\<close>

theorem Phone_construction:
  "(Phone s = Inr s \<longleftrightarrow> length s = 10 \<and> list_all isdigit_char s) \<and>
   (Phone s = Inr s \<or> Phone s = Inl (ValueError phone_msg)) \<and>
   (spec_phone s \<longrightarrow> Phone s = Inr s)"
  by (auto simp: Phone_def isdigit_def spec_phone_def isdigit_char_def list_all_iff)

theorem Phone_construction_witness:
  "spec_phone ''0123456789'' \<and> Phone ''0123456789'' = Inr ''0123456789''"
  using Phone_construction [of "''0123456789''"]
  by (simp add: spec_phone_def is_ascii_digit_def code_def)

theorem Phone_superscript_counterexample:
  "Phone superscript_twos = Inr superscript_twos \<and> \<not> spec_phone superscript_twos"
  by (simp add: Phone_def isdigit_def isdigit_char_def is_ascii_digit_def code_def
        spec_phone_def superscript_twos_def)

subsection \<open>Phones of a record\<close>

text \<open>
  C8. \<^verbatim>\<open>add_phone\<close> validates the string with \<^verbatim>\<open>Phone\<close>; an accepted string is appended
  at the end of the phone list whatever the list holds already, and nothing else of
  the record changes; a rejected string surfaces the validator's error and leaves the
  record as it was. One of the two always happens.
\<close>

theorem add_phone_appends:
  "(Phone v = Inr v \<longrightarrow> add_phone r v = (Inr (), r\<lparr>phones := phones r @ [v]\<rparr>)) \<and>
   (Phone v = Inl (ValueError phone_msg) \<longrightarrow> add_phone r v = (Inl (ValueError phone_msg), r)) \<and>
   (Phone v = Inr v \<or> Phone v = Inl (ValueError phone_msg))"
  by (auto simp: add_phone_def Phone_def)

theorem add_phone_appends_witness:
  "add_phone (Record_init ''Ann''\<lparr>phones := [''0123456789'']\<rparr>) ''0123456789''
     = (Inr (), Record_init ''Ann''\<lparr>phones := [''0123456789'', ''0123456789'']\<rparr>) \<and>
   add_phone (Record_init ''Ann''\<lparr>phones := [''0123456789'']\<rparr>) ''12345''
     = (Inl (ValueError phone_msg), Record_init ''Ann''\<lparr>phones := [''0123456789'']\<rparr>)"
  using add_phone_appends [of "''0123456789''" "Record_init ''Ann''\<lparr>phones := [''0123456789'']\<rparr>"]
        add_phone_appends [of "''12345''" "Record_init ''Ann''\<lparr>phones := [''0123456789'']\<rparr>"]
  by (simp add: Phone_def isdigit_def isdigit_char_def is_ascii_digit_def code_def Record_init_def)

lemma edit_loop_invalid:
  "old_phone \<in> set ps \<Longrightarrow> Phone new_phone = Inl e \<Longrightarrow> edit_loop ps old_phone new_phone = Inl e"
  by (induction ps) auto

text \<open>
  C10, amended. When the phone list holds \<open>old_phone\<close> and the validator of \<^verbatim>\<open>Phone\<close>
  rejects \<open>new_phone\<close> (it has not exactly 10 characters that all pass \<^verbatim>\<open>str.isdigit\<close>),
  \<^verbatim>\<open>edit_phone\<close> raises the validator's error and the record, so its phone list, is
  exactly as before.
\<close>

theorem edit_phone_rejected_new:
  "old_phone \<in> set (phones r) \<Longrightarrow> Phone new_phone = Inl e \<Longrightarrow>
     edit_phone r old_phone new_phone = (Inl e, r) \<and> e = ValueError phone_msg"
  by (auto simp: edit_phone_def edit_loop_invalid) (auto simp: Phone_def split: if_splits)

theorem edit_phone_rejected_new_witness:
  "edit_phone (Record_init ''Ann''\<lparr>phones := [''1111111111'', ''0123456789'']\<rparr>) ''0123456789'' ''12a''
     = (Inl (ValueError phone_msg), Record_init ''Ann''\<lparr>phones := [''1111111111'', ''0123456789'']\<rparr>)"
  using edit_phone_rejected_new [of "''0123456789''"
          "Record_init ''Ann''\<lparr>phones := [''1111111111'', ''0123456789'']\<rparr>" "''12a''" "ValueError phone_msg"]
  by (simp add: Phone_def Record_init_def)

theorem edit_phone_superscript_counterexample:
  "\<not> spec_phone superscript_twos \<and>
   edit_phone (Record_init ''Ann''\<lparr>phones := [''0123456789'']\<rparr>) ''0123456789'' superscript_twos
     = (Inr (Some (''Phones: '' @ superscript_twos)), Record_init ''Ann''\<lparr>phones := [superscript_twos]\<rparr>)"
  by (simp add: edit_phone_def Phone_def isdigit_def isdigit_char_def is_ascii_digit_def code_def
        spec_phone_def superscript_twos_def Record_init_def)

subsection \<open>Deleting a contact\<close>

lemma map_of_pop: "map_of (pop book n) = (map_of book)(n := None)"
  by (induction book) (auto simp: pop_def)

text \<open>
  C9. For a name that is not a key of the store, \<^verbatim>\<open>delete\<close> returns the not-found
  message and the store is unchanged. For a name that is a key it returns the
  confirmation, the items under that key are gone and every other item is kept, in
  order. \<^verbatim>\<open>delete\<close> has no raising branch: it always returns a message.
\<close>

theorem delete_found_or_not:
  "(n \<notin> fst ` set book \<longrightarrow> delete book n = (''The contact '' @ n @ '' not found.'', book)) \<and>
   (n \<in> fst ` set book \<longrightarrow>
      fst (delete book n) = ''The contact '' @ n @ '' has been deleted.'' \<and>
      snd (delete book n) = filter (\<lambda>item. fst item \<noteq> n) book \<and>
      map_of (snd (delete book n)) = (map_of book)(n := None))"
  by (simp add: delete_def contains_key_def map_of_pop) (simp add: pop_def)

theorem delete_found_or_not_witness:
  "delete [(''Ann'', Record_init ''Ann''), (''Bob'', Record_init ''Bob'')] ''Ann''
     = (''The contact Ann has been deleted.'', [(''Bob'', Record_init ''Bob'')]) \<and>
   delete [(''Ann'', Record_init ''Ann''), (''Bob'', Record_init ''Bob'')] ''Eve''
     = (''The contact Eve not found.'', [(''Ann'', Record_init ''Ann''), (''Bob'', Record_init ''Bob'')])"
  using delete_found_or_not [of "''Ann''" "[(''Ann'', Record_init ''Ann''), (''Bob'', Record_init ''Bob'')]"]
        delete_found_or_not [of "''Eve''" "[(''Ann'', Record_init ''Ann''), (''Bob'', Record_init ''Bob'')]"]
  by (simp add: prod_eq_iff)

subsection \<open>Notes addressed by tag\<close>

lemma edit_note_content_notes:
  "snd (edit_note_content ns tag c) =
     map (\<lambda>note. if tag \<in> set (tags note) then note\<lparr>content := c\<rparr> else note) ns"
  by (induction ns) (auto simp: Let_def split: prod.splits)

lemma length_filter_eq: "(length (filter P xs) = length xs) = (\<forall>x \<in> set xs. P x)"
  by (metis filter_True length_filter_less less_irrefl filter_id_conv)

text \<open>
  C7. \<^verbatim>\<open>edit_note_content\<close> replaces the content of every note whose tags contain the
  tag and leaves the other notes as they are; \<^verbatim>\<open>delete_note_by_index\<close> keeps exactly the
  notes whose tags do not contain the tag, and prints the confirmation when some note
  was removed and the not-found message otherwise.
\<close>

theorem notes_by_tag:
  "snd (edit_note_content ns tag c) =
     map (\<lambda>note. if tag \<in> set (tags note) then note\<lparr>content := c\<rparr> else note) ns \<and>
   snd (delete_note_by_index ns tag) = filter (\<lambda>note. tag \<notin> set (tags note)) ns \<and>
   fst (delete_note_by_index ns tag) =
     (if \<exists>note \<in> set ns. tag \<in> set (tags note)
      then [green (''Note with tag '' @ [dquote] @ tag @ [dquote] @ '' deleted successfully.'')]
      else [red (''No note found with tag '' @ [dquote] @ tag @ [dquote] @ ''.'')])"
  by (auto simp: edit_note_content_notes delete_note_by_index_def Let_def length_filter_eq)

theorem notes_by_tag_witness:
  "snd (edit_note_content [\<lparr>content = ''a'', tags = [''x'', ''y'']\<rparr>, \<lparr>content = ''b'', tags = [''z'']\<rparr>,
                           \<lparr>content = ''c'', tags = [''y'']\<rparr>] ''y'' ''new'')
     = [\<lparr>content = ''new'', tags = [''x'', ''y'']\<rparr>, \<lparr>content = ''b'', tags = [''z'']\<rparr>,
        \<lparr>content = ''new'', tags = [''y'']\<rparr>] \<and>
   delete_note_by_index [\<lparr>content = ''a'', tags = [''x'', ''y'']\<rparr>, \<lparr>content = ''b'', tags = [''z'']\<rparr>,
                           \<lparr>content = ''c'', tags = [''y'']\<rparr>] ''y''
     = ([green (''Note with tag '' @ [dquote] @ ''y'' @ [dquote] @ '' deleted successfully.'')],
        [\<lparr>content = ''b'', tags = [''z'']\<rparr>])"
  using notes_by_tag [of "[\<lparr>content = ''a'', tags = [''x'', ''y'']\<rparr>, \<lparr>content = ''b'', tags = [''z'']\<rparr>,
                           \<lparr>content = ''c'', tags = [''y'']\<rparr>]" "''y''" "''new''"]
  by (simp add: prod_eq_iff)

subsection \<open>Days to the birthday\<close>

text \<open>
  C1: \<^verbatim>\<open>days_to_birthday\<close> should return, for every record with a birthday, the today
  result, or the number of days to the next anniversary. For a birthday on 29 February
  it raises instead: \<^verbatim>\<open>replace(year=...)\<close> has no such day in a year that is not a leap
  year. The birthday "2024.02.29" is accepted by \<^verbatim>\<open>add_birthday\<close>; on 2025-03-01 the first
  \<^verbatim>\<open>replace\<close> raises, and on 2024-03-01 the second one, to the year 2025, does. (For every
  other birthday the function does what the claim says: \<open>days_to_birthday_regular\<close>
  below.)
\<close>

theorem days_to_birthday_leap_day:
  "add_birthday zeros (Record_init ''Ann'') (ustr ''2024.02.29'') = (Inr (), leap_child) \<and>
   days_to_birthday (Date 2025 3 1) leap_child = Inl (ValueError ''day is out of range for month'') \<and>
   days_to_birthday (Date 2024 3 1) leap_child = Inl (ValueError ''day is out of range for month'')"
  by code_simp

subsection \<open>Birthdays within a number of days\<close>

text \<open>
  C2: the query over 364 days should list a record whose next anniversary, by the rule
  of \<^verbatim>\<open>days_to_birthday\<close>, is 364 days ahead. On 2025-03-10 a birthday on 9 March was
  yesterday: \<^verbatim>\<open>days_to_birthday\<close> moves it to 2026-03-09, 364 days ahead and the last
  day of the window, but \<^verbatim>\<open>birthday_in_given_days\<close> compares with \<^verbatim>\<open><\<close>, keeps
  2025-03-09 and lists nothing. (Below 364 days, and for birthdays other than
  29 February, the query lists what the claim says: \<open>birthday_in_given_days_regular\<close>
  below.)
\<close>

theorem birthday_in_given_days_yesterday:
  "birthday_in_given_days (Date 2025 3 10) [(''Ann'', born_yesterday)] 364
     = Inr ([cyan ''No Birthday during this period.''], None) \<and>
   days_to_birthday (Date 2025 3 10) born_yesterday = Inr (Days 364) \<and>
   date_add_days (Date 2025 3 10) 364 = Inr (Date 2026 3 9)"
  by code_simp


subsection \<open>Email\<close>

lemma rep_iff:
  "rep n P k s \<longleftrightarrow> (\<exists>u v. s = u @ v \<and> n \<le> length u \<and> list_all P u \<and> k v)"
proof (induction s arbitrary: n)
  case Nil
  show ?case by auto
next
  case (Cons c cs)
  show ?case (is "?L = ?R")
  proof
    assume ?L
    then consider (more) "P c" "rep (n - 1) P k cs" | (stop) "n = 0" "k (c # cs)"
      by auto
    then show ?R
    proof cases
      case more
      then obtain u v where "cs = u @ v" "n - 1 \<le> length u" "list_all P u" "k v"
        using Cons.IH by blast
      with more(1) have "c # cs = (c # u) @ v \<and> n \<le> length (c # u) \<and> list_all P (c # u) \<and> k v"
        by auto
      then show ?thesis by blast
    next
      case stop
      then have "c # cs = [] @ (c # cs) \<and> n \<le> length ([] :: string) \<and> list_all P [] \<and> k (c # cs)"
        by simp
      then show ?thesis by blast
    qed
  next
    assume ?R
    then obtain u v where uv: "c # cs = u @ v" "n \<le> length u" "list_all P u" "k v"
      by blast
    show ?L
    proof (cases u)
      case Nil
      with uv have "n = 0" "k (c # cs)" by auto
      then show ?thesis by simp
    next
      case (Cons a u')
      with uv have "P c" "cs = u' @ v" "n - 1 \<le> length u'" "list_all P u'"
        by auto
      with uv(4) have "rep (n - 1) P k cs"
        using Cons.IH by blast
      with \<open>P c\<close> show ?thesis by simp
    qed
  qed
qed

lemma rmatch_AtLeast:
  "rmatch (AtLeast n P) k s \<longleftrightarrow> (\<exists>u v. s = u @ v \<and> n \<le> length u \<and> list_all P u \<and> k v)"
  by (simp add: rep_iff)

lemma rmatch_Class:
  "rmatch (Class P) k s \<longleftrightarrow> (\<exists>c v. s = c # v \<and> P c \<and> k v)"
  by (cases s) auto

lemma rmatch_Seq: "rmatch (Seq a b) k s \<longleftrightarrow> rmatch a (rmatch b k) s"
  by simp

lemma email_search_iff:
  "re_search_anchored email_pattern s \<longleftrightarrow>
     (\<exists>loc dom tld v. s = loc @ ''@'' @ dom @ ''.'' @ tld @ v \<and>
        1 \<le> length loc \<and> list_all local_char loc \<and> 1 \<le> length dom \<and> list_all domain_char dom \<and>
        2 \<le> length tld \<and> list_all is_alpha tld \<and> dollar v)"
  unfolding re_search_anchored_def email_pattern_def rmatch_Seq rmatch_AtLeast rmatch_Class
  by (simp, blast)

lemma email_search_spec:
  "re_search_anchored email_pattern s \<longleftrightarrow> spec_email s \<or> (\<exists>t. s = t @ [newline] \<and> spec_email t)"
proof
  assume "re_search_anchored email_pattern s"
  then obtain loc dom tld v where *: "s = loc @ ''@'' @ dom @ ''.'' @ tld @ v"
      "1 \<le> length loc" "list_all local_char loc" "1 \<le> length dom" "list_all domain_char dom"
      "2 \<le> length tld" "list_all is_alpha tld" "dollar v"
    unfolding email_search_iff by blast
  then have ne: "loc \<noteq> []" "dom \<noteq> []" by auto
  have sp: "spec_email (loc @ ''@'' @ dom @ ''.'' @ tld)"
    unfolding spec_email_def using * ne by blast
  from \<open>dollar v\<close> consider "v = []" | "v = [newline]"
    by (auto simp: dollar_def)
  then show "spec_email s \<or> (\<exists>t. s = t @ [newline] \<and> spec_email t)"
  proof cases
    case 1
    with sp * show ?thesis by simp
  next
    case 2
    with * have "s = (loc @ ''@'' @ dom @ ''.'' @ tld) @ [newline]" by simp
    with sp show ?thesis by blast
  qed
next
  assume "spec_email s \<or> (\<exists>t. s = t @ [newline] \<and> spec_email t)"
  then obtain t v where tv: "s = t @ v" "spec_email t" "dollar v"
    by (auto simp: dollar_def)
  then obtain loc dom tld where *: "t = loc @ ''@'' @ dom @ ''.'' @ tld"
      "loc \<noteq> []" "list_all local_char loc" "dom \<noteq> []" "list_all domain_char dom"
      "2 \<le> length tld" "list_all is_alpha tld"
    unfolding spec_email_def by blast
  then have "1 \<le> length loc" "1 \<le> length dom"
    by (cases loc; simp)  (cases dom; simp add: *)
  with * tv have "s = loc @ ''@'' @ dom @ ''.'' @ tld @ v \<and>
        1 \<le> length loc \<and> list_all local_char loc \<and> 1 \<le> length dom \<and> list_all domain_char dom \<and>
        2 \<le> length tld \<and> list_all is_alpha tld \<and> dollar v"
    by simp
  then show "re_search_anchored email_pattern s"
    unfolding email_search_iff by blast
qed

lemma spec_email_last:
  assumes "spec_email s"
  shows "is_alpha (last s)"
proof -
  from assms obtain loc dom tld where *: "s = loc @ ''@'' @ dom @ ''.'' @ tld" "2 \<le> length tld" "list_all is_alpha tld"
    unfolding spec_email_def by blast
  then have "tld \<noteq> []" by auto
  with * have "last s = last tld" by simp
  with \<open>tld \<noteq> []\<close> *(3) show ?thesis by (simp add: list_all_iff)
qed

lemma spec_email_has_dot:
  assumes "spec_email s"
  shows "CHR ''.'' \<in> set (dropWhile (\<lambda>c. c \<noteq> CHR ''@'') s)"
proof -
  from assms obtain loc dom tld where *: "s = loc @ ''@'' @ dom @ ''.'' @ tld" "list_all local_char loc"
    unfolding spec_email_def by blast
  have "\<forall>c \<in> set loc. c \<noteq> CHR ''@''"
    using *(2) by (auto simp: list_all_iff local_char_def is_ascii_lower_def is_ascii_upper_def is_ascii_digit_def code_def)
  then have "dropWhile (\<lambda>c. c \<noteq> CHR ''@'') s = ''@'' @ dom @ ''.'' @ tld"
    unfolding *(1) by (simp add: dropWhile_append)
  then show ?thesis by simp
qed

text \<open>
  C5, amended. Constructing an \<^verbatim>\<open>Email\<close> from \<open>s\<close> succeeds exactly when \<open>s\<close>, or \<open>s\<close>
  without one newline character at its end, matches the pattern \<^verbatim>\<open>local@domain.tld\<close> of
  the specification; the stored value is \<open>s\<close>, every string matching the pattern is
  accepted and every other string is rejected with the validator's \<^verbatim>\<open>ValueError\<close>. (The
  anchor \<^verbatim>\<open>$\<close> also matches before a final newline.)
\<close>

theorem Email_construction:
  "(Email s = Inr s \<longleftrightarrow> spec_email s \<or> (\<exists>t. s = t @ [newline] \<and> spec_email t)) \<and>
   (Email s = Inr s \<or> Email s = Inl (ValueError email_msg)) \<and>
   (spec_email s \<longrightarrow> Email s = Inr s)"
  by (auto simp: Email_def email_search_spec)

theorem Email_construction_witness:
  "spec_email ''a.b@x.co'' \<and> Email ''a.b@x.co'' = Inr ''a.b@x.co'' \<and>
   \<not> spec_email ''a@b'' \<and> Email ''a@b'' = Inl (ValueError email_msg)"
proof -
  have "''a.b@x.co'' = ''a.b'' @ ''@'' @ ''x'' @ ''.'' @ ''co'' \<and> ''a.b'' \<noteq> [] \<and> list_all local_char ''a.b''
      \<and> ''x'' \<noteq> [] \<and> list_all domain_char ''x'' \<and> 2 \<le> length ''co'' \<and> list_all is_alpha ''co''"
    by (simp add: local_char_def domain_char_def is_alpha_def is_ascii_lower_def is_ascii_upper_def is_ascii_digit_def code_def)
  then have 1: "spec_email ''a.b@x.co''"
    unfolding spec_email_def by blast
  have 2: "\<not> spec_email ''a@b''"
    using spec_email_has_dot [of "''a@b''"] by auto
  have 3: "\<not> (\<exists>t. ''a@b'' = t @ [newline] \<and> spec_email t)"
    by (auto simp: newline_def)
  show ?thesis
    using Email_construction [of "''a.b@x.co''"] Email_construction [of "''a@b''"] 1 2 3 by auto
qed

theorem Email_newline_counterexample:
  "Email newline_email = Inr newline_email \<and> \<not> spec_email newline_email"
proof -
  have "Email newline_email = Inr newline_email"
    by (simp add: Email_def re_search_anchored_def email_pattern_def newline_email_def dollar_def
        local_char_def domain_char_def is_alpha_def is_ascii_lower_def is_ascii_upper_def is_ascii_digit_def code_def newline_def)
  moreover have "\<not> spec_email newline_email"
    using spec_email_last [of newline_email]
    by (auto simp: newline_email_def is_alpha_def is_ascii_lower_def is_ascii_upper_def code_def newline_def)
  ultimately show ?thesis by simp
qed

subsection \<open>Birthday\<close>

text \<open>Digits and numbers.\<close>

lemma digit_val_char: "n < 10 \<Longrightarrow> code (digit_char n) = 48 + n"
proof -
  assume "n < 10"
  then have "n \<in> {0,1,2,3,4,5,6,7,8,9}" by (simp, arith)
  then show ?thesis
    by (auto simp: digit_char_def code_def)
qed

lemma str_nat_1: "n < 10 \<Longrightarrow> str_nat n = [digit_char n]"
  by (simp add: str_nat.simps)

lemma str_nat_step: "10 \<le> n \<Longrightarrow> str_nat n = str_nat (n div 10) @ [digit_char (n mod 10)]"
  by (subst str_nat.simps) simp

lemma replicate_small:
  "replicate 1 c = [c]" "replicate 2 c = [c, c]" "replicate 3 c = [c, c, c]"
  by (simp_all add: numeral_2_eq_2 numeral_3_eq_3)

lemma digit_char_0: "digit_char 0 = CHR ''0''"
  by (simp add: digit_char_def)

lemma zfill2: 
  assumes n: "n < 100"
  shows "zfill 2 (str_nat n) = [digit_char (n div 10), digit_char (n mod 10)]"
proof (cases "n < 10")
  case True then show ?thesis by (simp add: str_nat_1 zfill_def replicate_small digit_char_0)
next
  case False with n have "n div 10 < 10" by simp
  with False show ?thesis by (simp add: str_nat_step str_nat_1 zfill_def)
qed

lemma zfill4: 
  assumes n: "n < 10000"
  shows "zfill 4 (str_nat n) = [digit_char (n div 10 div 10 div 10), digit_char (n div 10 div 10 mod 10), digit_char (n div 10 mod 10), digit_char (n mod 10)]"
proof -
  define q1 q2 q3 where "q1 = n div 10" and "q2 = q1 div 10" and "q3 = q2 div 10"
  have q3: "q3 < 10" using n unfolding q3_def q2_def q1_def by simp
  show ?thesis
  proof (cases "n < 10")
    case True
    then show ?thesis by (simp add: str_nat_1 zfill_def replicate_small digit_char_0)
  next
    case n10: False
    then have s1: "str_nat n = str_nat q1 @ [digit_char (n mod 10)]"
      by (simp add: str_nat_step q1_def)
    show ?thesis
    proof (cases "q1 < 10")
      case True
      then show ?thesis unfolding s1 q1_def [symmetric] 
        by (simp add: str_nat_1 zfill_def replicate_small digit_char_0)
    next
      case q10: False
      then have s2: "str_nat q1 = str_nat q2 @ [digit_char (q1 mod 10)]"
        by (simp add: str_nat_step q2_def)
      show ?thesis
      proof (cases "q2 < 10")
        case True
        then show ?thesis unfolding s1 s2 q1_def [symmetric] q2_def [symmetric]
          by (simp add: str_nat_1 zfill_def replicate_small digit_char_0)
      next
        case False
        then have s3: "str_nat q2 = str_nat q3 @ [digit_char (q2 mod 10)]"
          by (simp add: str_nat_step q3_def)
        show ?thesis unfolding s1 s2 s3 q1_def [symmetric] q2_def [symmetric] q3_def [symmetric]
          using q3 by (simp add: str_nat_1 zfill_def)
      qed
    qed
  qed
qed

text \<open>The decimal digits.\<close>

lemma decimal_le: "decimal zeros c = Some v \<Longrightarrow> v \<le> 9"
  by (auto simp: decimal_def find_Some_iff split: if_splits option.splits)

lemma decimal_ascii: "v \<le> 9 \<Longrightarrow> decimal zeros (48 + v) = Some v"
  by (simp add: decimal_def)

lemma decimal_blank: "decimal zeros c = Some v \<Longrightarrow> c \<noteq> code (CHR '' '')"
  by (auto simp: decimal_def code_def split: if_splits)

lemma digit_forms_iff: "c \<in> set (digit_forms zeros v) \<longleftrightarrow> decimal zeros c = Some v"
proof
  assume "c \<in> set (digit_forms zeros v)"
  then show "decimal zeros c = Some v" by (auto simp: digit_forms_def split: if_splits)
next
  assume d: "decimal zeros c = Some v"
  have "c = 48 + v \<or> c \<in> (\<lambda>z. z + v) ` set zeros"
  proof (cases "c < 256")
    case True
    with d show ?thesis by (auto simp: decimal_def split: if_splits)
  next
    case False
    with d obtain z where "List.find (\<lambda>z. z \<le> c \<and> c \<le> z + 9) zeros = Some z" "v = c - z"
      by (auto simp: decimal_def split: option.splits)
    then have "z \<in> set zeros" "c = z + v"
      by (auto simp: find_Some_iff)
    then show ?thesis by blast
  qed
  with d show "c \<in> set (digit_forms zeros v)"
    by (auto simp: digit_forms_def)
qed

lemma int_of_ustr_4:
  assumes "decimal zeros a = Some va" "decimal zeros b = Some vb" "decimal zeros c = Some vc" "decimal zeros e = Some ve"
  shows "int_of_ustr zeros [a, b, c, e] = int (1000 * va + 100 * vb + 10 * vc + ve)"
  using assms decimal_blank [OF assms(1)] by (simp add: int_of_ustr_def)

lemma int_of_ustr_2:
  assumes "decimal zeros a = Some va" "decimal zeros b = Some vb"
  shows "int_of_ustr zeros [a, b] = int (10 * va + vb)"
  using assms decimal_blank [OF assms(1)] by (simp add: int_of_ustr_def)

lemma div_100: "(n::nat) div 100 = n div 10 div 10"
proof -
  have "n div (10 * 10) = n div 10 div 10" by (rule div_mult2_eq)
  then show ?thesis by simp
qed

lemma div_1000: "(n::nat) div 1000 = n div 10 div 10 div 10"
proof -
  have "n div (100 * 10) = n div 100 div 10" by (rule div_mult2_eq)
  then show ?thesis by (simp add: div_100)
qed

lemma digits4:
  fixes a b c e :: nat
  assumes "b \<le> 9" "c \<le> 9" "e \<le> 9"
  defines "n \<equiv> 1000 * a + 100 * b + 10 * c + e"
  shows "n div 1000 = a" "n div 100 mod 10 = b" "n div 10 mod 10 = c" "n mod 10 = e"
proof -
  have step: "(10 * k + r) div 10 = k" "(10 * k + r) mod 10 = r" if "r \<le> 9" for k r :: nat
    using that by simp_all
  have n: "n = 10 * (10 * (10 * a + b) + c) + e" by (simp add: n_def)
  have 1: "n div 10 = 10 * (10 * a + b) + c" unfolding n by (rule step(1) [OF assms(3)])
  have 2: "n div 10 div 10 = 10 * a + b" unfolding 1 by (rule step(1) [OF assms(2)])
  show "n mod 10 = e" unfolding n by (rule step(2) [OF assms(3)])
  show "n div 10 mod 10 = c" unfolding 1 by (rule step(2) [OF assms(2)])
  show "n div 100 mod 10 = b" unfolding div_100 2 by (rule step(2) [OF assms(1)])
  show "n div 1000 = a" unfolding div_1000 2 by (rule step(1) [OF assms(1)])
qed

lemma digits4_sum:
  "1000 * (n div 1000) + 100 * (n div 100 mod 10) + 10 * (n div 10 mod 10) + n mod 10 = (n::nat)"
proof -
  define q1 q2 q3 where "q1 = n div 10" and "q2 = q1 div 10" and "q3 = q2 div 10"
  define r0 r1 r2 where "r0 = n mod 10" and "r1 = q1 mod 10" and "r2 = q2 mod 10"
  have "n = 10 * q1 + r0" "q1 = 10 * q2 + r1" "q2 = 10 * q3 + r2"
    unfolding q1_def q2_def q3_def r0_def r1_def r2_def by simp_all
  then have "1000 * q3 + 100 * r2 + 10 * r1 + r0 = n" by simp
  then show ?thesis
    unfolding div_1000 div_100 q1_def q2_def q3_def r0_def r1_def r2_def .
qed


text \<open>The year: four decimal digits read as a number, and the forms of that number.\<close>

lemma year_forms_iff:
  "Y \<in> set (year_forms zeros y) \<longleftrightarrow>
     (\<exists>a b c e. Y = [a, b, c, e] \<and> decimal zeros a = Some (nat y div 1000) \<and>
        decimal zeros b = Some (nat y div 100 mod 10) \<and> decimal zeros c = Some (nat y div 10 mod 10) \<and>
        decimal zeros e = Some (nat y mod 10))"
proof -
  have "Y \<in> set (year_forms zeros y) \<longleftrightarrow>
     (\<exists>a \<in> set (digit_forms zeros (nat y div 1000)). \<exists>b \<in> set (digit_forms zeros (nat y div 100 mod 10)).
      \<exists>c \<in> set (digit_forms zeros (nat y div 10 mod 10)). \<exists>e \<in> set (digit_forms zeros (nat y mod 10)).
        Y = [a, b, c, e])"
    unfolding year_forms_def by auto
  also have "\<dots> \<longleftrightarrow>
     (\<exists>a b c e. Y = [a, b, c, e] \<and> decimal zeros a = Some (nat y div 1000) \<and>
        decimal zeros b = Some (nat y div 100 mod 10) \<and> decimal zeros c = Some (nat y div 10 mod 10) \<and>
        decimal zeros e = Some (nat y mod 10))"
    by (simp only: Bex_def digit_forms_iff) blast
  finally show ?thesis .
qed

lemma digits_year:
  assumes "list_all (is_decimal zeros) [a, b, c, e]"
  shows "0 \<le> int_of_ustr zeros [a, b, c, e] \<and> [a, b, c, e] \<in> set (year_forms zeros (int_of_ustr zeros [a, b, c, e]))"
proof -
  from assms obtain va vb vc ve where
    d: "decimal zeros a = Some va" "decimal zeros b = Some vb" "decimal zeros c = Some vc" "decimal zeros e = Some ve"
    by (auto simp: is_decimal_def)
  define n where "n = 1000 * va + 100 * vb + 10 * vc + ve"
  have y: "int_of_ustr zeros [a, b, c, e] = int n"
    unfolding n_def by (rule int_of_ustr_4 [OF d])
  have dg: "n div 1000 = va" "n div 100 mod 10 = vb" "n div 10 mod 10 = vc" "n mod 10 = ve"
    unfolding n_def by (rule digits4 [OF decimal_le [OF d(2)] decimal_le [OF d(3)] decimal_le [OF d(4)]])+
  have "[a, b, c, e] \<in> set (year_forms zeros (int n))"
    by (simp add: year_forms_iff dg d)
  then show ?thesis by (simp add: y)
qed

lemma year_forms_digits:
  assumes "0 \<le> y" "Y \<in> set (year_forms zeros y)"
  shows "\<exists>a b c e. Y = [a, b, c, e] \<and> list_all (is_decimal zeros) [a, b, c, e] \<and> int_of_ustr zeros [a, b, c, e] = y"
proof -
  define n where "n = nat y"
  from assms(2) obtain a b c e where Y: "Y = [a, b, c, e]"
    and d: "decimal zeros a = Some (n div 1000)" "decimal zeros b = Some (n div 100 mod 10)"
      "decimal zeros c = Some (n div 10 mod 10)" "decimal zeros e = Some (n mod 10)"
    by (auto simp: year_forms_iff n_def)
  have "int_of_ustr zeros [a, b, c, e] = int n"
    unfolding int_of_ustr_4 [OF d] digits4_sum ..
  with assms(1) Y d show ?thesis by (simp add: is_decimal_def n_def)
qed

lemma padded_year:
  assumes "0 \<le> y" "y \<le> 9999"
  shows "ustr (zfill 4 (str_int y)) \<in> set (year_forms zeros y)"
proof -
  define n where "n = nat y"
  have n: "n < 10000" using assms by (auto simp: n_def)
  have lt: "n div 10 div 10 div 10 < 10" "n div 10 div 10 mod 10 < 10" "n div 10 mod 10 < 10" "n mod 10 < 10"
    using n by simp_all
  have "ustr (zfill 4 (str_int y))
      = [48 + n div 10 div 10 div 10, 48 + n div 10 div 10 mod 10, 48 + n div 10 mod 10, 48 + n mod 10]"
    using assms(1) zfill4 [OF n] lt by (simp add: str_int_def n_def [symmetric] ustr_def digit_val_char)
  moreover have "[48 + n div 10 div 10 div 10, 48 + n div 10 div 10 mod 10, 48 + n div 10 mod 10, 48 + n mod 10]
      \<in> set (year_forms zeros y)"
    using lt by (simp add: year_forms_iff n_def [symmetric] div_1000 div_100 decimal_ascii)
  ultimately show ?thesis by simp
qed

text \<open>The accepted forms of a month and of a day are the texts their groups match.\<close>

lemma month_forms_tokens:
  "\<forall>m \<in> set [1..12]. \<forall>M \<in> set (month_forms m). M \<in> set month_tokens \<and> int_of_ustr zeros M = m"
  by code_simp

lemma month_tokens_forms:
  "\<forall>t \<in> set month_tokens. t \<in> set (month_forms (int_of_ustr zeros t))"
  by code_simp

lemma day_tokens_forms:
  "\<forall>t \<in> set day_tokens. t \<in> set (day_forms zeros (int_of_ustr zeros t))"
  by code_simp

lemma day_forms_ascii:
  "\<forall>d \<in> set ([1..9] @ [30, 31]). \<forall>D \<in> set (day_forms zeros d).
     group_d zeros D \<noteq> [] \<and> hd (group_d zeros D) = (D, []) \<and> int_of_ustr zeros D = d"
  by code_simp

lemma padded_day:
  "\<forall>d \<in> set [1..31]. ustr (zfill 2 (str_int d)) \<in> set (day_forms zeros d)"
  by code_simp

lemma padded_month:
  "ustr (zfill 2 (str_int m)) \<in> set (month_forms m)"
  by (simp add: month_forms_def)


lemma range_01: "in_range (CHR ''0'') (CHR ''1'') c \<longleftrightarrow> c \<in> {48, 49}"
  unfolding in_range_def code_def by (simp, arith)

lemma range_02: "in_range (CHR ''0'') (CHR ''2'') c \<longleftrightarrow> c \<in> {48, 49, 50}"
  unfolding in_range_def code_def by (simp, arith)

lemma range_12: "in_range (CHR ''1'') (CHR ''2'') c \<longleftrightarrow> c \<in> {49, 50}"
  unfolding in_range_def code_def by (simp, arith)

lemma range_19: "in_range (CHR ''1'') (CHR ''9'') c \<longleftrightarrow> c \<in> {49, 50, 51, 52, 53, 54, 55, 56, 57}"
  unfolding in_range_def code_def by (simp, arith)

lemmas in_range_enum = range_01 range_02 range_12 range_19

lemma alt2_mem:
  assumes "(t, r) \<in> set (alt2 P Q s)"
  shows "\<exists>a b. t = [a, b] \<and> s = a # b # r \<and> P a \<and> Q b"
proof -
  from assms have *: "2 \<le> length s" "P (s ! 0)" "Q (s ! 1)" "t = take 2 s" "r = drop 2 s"
    by (auto simp: alt2_def split: if_splits)
  from *(1) obtain a b s' where s: "s = a # b # s'"
    by (cases s; cases "tl s") auto
  with * show ?thesis by simp
qed

lemma alt1_mem:
  assumes "(t, r) \<in> set (alt1 P s)"
  shows "\<exists>a. t = [a] \<and> s = a # r \<and> P a"
  using assms by (cases s) (auto simp: alt1_def split: if_splits)

lemma dot_mem: "r' \<in> set (dot r) \<Longrightarrow> r = ustr ''.'' @ r'"
  by (cases r) (auto simp: dot_def is_chr_def ustr_def split: if_splits)

lemma group_Y_mem:
  assumes "(t, r) \<in> set (group_Y zeros s)"
  shows "s = t @ r \<and> (\<exists>a b c e. t = [a, b, c, e] \<and> list_all (is_decimal zeros) [a, b, c, e])"
proof -
  from assms have *: "4 \<le> length s" "list_all (is_decimal zeros) (take 4 s)" "t = take 4 s" "r = drop 4 s"
    by (auto simp: group_Y_def split: if_splits)
  then have "length t = 4" by simp
  then obtain a b c e where "t = [a, b, c, e]"
    by (auto simp: length_Suc_conv eval_nat_numeral)
  with * show ?thesis by (metis append_take_drop_id)
qed

lemma group_m_mem:
  assumes "(t, r) \<in> set (group_m s)"
  shows "s = t @ r \<and> t \<in> set month_tokens"
proof -
  from assms consider
      (a) "(t, r) \<in> set (alt2 (is_chr (CHR ''1'')) (in_range (CHR ''0'') (CHR ''2'')) s)"
    | (b) "(t, r) \<in> set (alt2 (is_chr (CHR ''0'')) (in_range (CHR ''1'') (CHR ''9'')) s)"
    | (c) "(t, r) \<in> set (alt1 (in_range (CHR ''1'') (CHR ''9'')) s)"
    unfolding group_m_def by auto
  then show ?thesis
  proof cases
    case a
    then obtain x y where "t = [x, y]" "s = x # y # r" "x = 49" "y \<in> {48, 49, 50}"
      using alt2_mem [OF a] by (auto simp: in_range_enum is_chr_def code_def)
    then show ?thesis by (auto simp: month_tokens_def one_digit_def ustr_def code_def)
  next
    case b
    then obtain x y where "t = [x, y]" "s = x # y # r" "x = 48" "y \<in> {49, 50, 51, 52, 53, 54, 55, 56, 57}"
      using alt2_mem [OF b] by (auto simp: in_range_enum is_chr_def code_def)
    then show ?thesis by (auto simp: month_tokens_def one_digit_def ustr_def code_def)
  next
    case c
    then obtain x where "t = [x]" "s = x # r" "x \<in> {49, 50, 51, 52, 53, 54, 55, 56, 57}"
      using alt1_mem [OF c] by (auto simp: in_range_enum)
    then show ?thesis by (auto simp: month_tokens_def one_digit_def ustr_def code_def)
  qed
qed

lemma group_d_mem:
  assumes "(t, r) \<in> set (group_d zeros s)"
  shows "s = t @ r \<and> (t \<in> set day_tokens \<or> (\<exists>a u. t = [a, u] \<and> a \<in> {49, 50} \<and> is_decimal zeros u))"
proof -
  from assms consider
      (a) "(t, r) \<in> set (alt2 (is_chr (CHR ''3'')) (in_range (CHR ''0'') (CHR ''1'')) s)"
    | (b) "(t, r) \<in> set (alt2 (in_range (CHR ''1'') (CHR ''2'')) (is_decimal zeros) s)"
    | (c) "(t, r) \<in> set (alt2 (is_chr (CHR ''0'')) (in_range (CHR ''1'') (CHR ''9'')) s)"
    | (d) "(t, r) \<in> set (alt1 (in_range (CHR ''1'') (CHR ''9'')) s)"
    | (e) "(t, r) \<in> set (alt2 (is_chr (CHR '' '')) (in_range (CHR ''1'') (CHR ''9'')) s)"
    unfolding group_d_def by auto
  then show ?thesis
  proof cases
    case a
    then obtain x y where "t = [x, y]" "s = x # y # r" "x = 51" "y \<in> {48, 49}"
      using alt2_mem [OF a] by (auto simp: in_range_enum is_chr_def code_def)
    then show ?thesis by (auto simp: day_tokens_def one_digit_def ustr_def code_def)
  next
    case b
    then obtain x y where "t = [x, y]" "s = x # y # r" "x \<in> {49, 50}" "is_decimal zeros y"
      using alt2_mem [OF b] by (auto simp: in_range_enum)
    then show ?thesis by simp
  next
    case c
    then obtain x y where "t = [x, y]" "s = x # y # r" "x = 48" "y \<in> {49, 50, 51, 52, 53, 54, 55, 56, 57}"
      using alt2_mem [OF c] by (auto simp: in_range_enum is_chr_def code_def)
    then show ?thesis by (auto simp: day_tokens_def one_digit_def ustr_def code_def)
  next
    case d
    then obtain x where "t = [x]" "s = x # r" "x \<in> {49, 50, 51, 52, 53, 54, 55, 56, 57}"
      using alt1_mem [OF d] by (auto simp: in_range_enum)
    then show ?thesis by (auto simp: day_tokens_def one_digit_def ustr_def code_def)
  next
    case e
    then obtain x y where "t = [x, y]" "s = x # y # r" "x = 32" "y \<in> {49, 50, 51, 52, 53, 54, 55, 56, 57}"
      using alt2_mem [OF e] by (auto simp: in_range_enum is_chr_def code_def)
    then show ?thesis by (auto simp: day_tokens_def one_digit_def ustr_def code_def)
  qed
qed

lemma format_matches_mem:
  assumes "(Y, m, d, r) \<in> set (format_matches zeros s)"
  shows "s = Y @ ustr ''.'' @ m @ ustr ''.'' @ d @ r \<and>
         (\<exists>a b c e. Y = [a, b, c, e] \<and> list_all (is_decimal zeros) [a, b, c, e]) \<and>
         m \<in> set month_tokens \<and>
         (d \<in> set day_tokens \<or> (\<exists>a u. d = [a, u] \<and> a \<in> {49, 50} \<and> is_decimal zeros u))"
proof -
  from assms obtain r1 r2 r3 r4 where
    "(Y, r1) \<in> set (group_Y zeros s)" "r2 \<in> set (dot r1)" "(m, r3) \<in> set (group_m r2)"
    "r4 \<in> set (dot r3)" "(d, r) \<in> set (group_d zeros r4)"
    unfolding format_matches_def by auto
  then show ?thesis
    using group_Y_mem [of Y r1 zeros s] dot_mem [of r2 r1] group_m_mem [of m r3 r2] dot_mem [of r4 r3]
      group_d_mem [of d r zeros r4]
    by simp
qed

text \<open>The days from 10 to 29, whose last digit is any decimal digit.\<close>

lemma tens_digit:
  assumes "(10::nat) \<le> n" "n \<le> 29"
  shows "n div 10 = 1 \<or> n div 10 = 2"
proof -
  define q where "q = n div 10"
  have "n = 10 * q + n mod 10" by (simp add: q_def)
  moreover have "n mod 10 < 10" by simp
  ultimately have "1 \<le> q" "q \<le> 2" using assms by linarith+
  then show ?thesis unfolding q_def by linarith
qed

lemma day_two_digits:
  assumes a: "a = 49 \<or> a = 50" and u: "decimal zeros u = Some v"
  shows "int_of_ustr zeros [a, u] = int (10 * (a - 48) + v)" "10 \<le> 10 * (a - 48) + v" "10 * (a - 48) + v \<le> 29"
    "(10 * (a - 48) + v) div 10 = a - 48" "(10 * (a - 48) + v) mod 10 = v"
    "\<exists>tl. group_d zeros [a, u] = ([a, u], []) # tl"
proof -
  have v: "v \<le> 9" using u by (rule decimal_le)
  have da: "decimal zeros a = Some (a - 48)" using a by (auto simp: decimal_def)
  show "int_of_ustr zeros [a, u] = int (10 * (a - 48) + v)"
    by (rule int_of_ustr_2 [OF da u])
  show "10 \<le> 10 * (a - 48) + v" "10 * (a - 48) + v \<le> 29" using a v by auto
  show "(10 * (a - 48) + v) div 10 = a - 48" "(10 * (a - 48) + v) mod 10 = v" using v by simp_all
  show "\<exists>tl. group_d zeros [a, u] = ([a, u], []) # tl"
    using a u by (auto simp: group_d_def alt2_def alt1_def is_chr_def in_range_def code_def is_decimal_def)
qed

lemma day_token_form:
  assumes "d \<in> set day_tokens \<or> (\<exists>a u. d = [a, u] \<and> a \<in> {49, 50} \<and> is_decimal zeros u)"
  shows "d \<in> set (day_forms zeros (int_of_ustr zeros d))"
  using assms
proof
  assume "d \<in> set day_tokens"
  then show ?thesis using day_tokens_forms by blast
next
  assume "\<exists>a u. d = [a, u] \<and> a \<in> {49, 50} \<and> is_decimal zeros u"
  then obtain a u v where d: "d = [a, u]" and a: "a = 49 \<or> a = 50" and u: "decimal zeros u = Some v"
    by (auto simp: is_decimal_def)
  note f = day_two_digits [OF a u]
  define n where "n = 10 * (a - 48) + v"
  have "48 + n div 10 = a" using a f(4) by (auto simp: n_def)
  then have "[a, u] \<in> set (day_forms zeros (int n))"
    using f(2,3,5) u by (simp add: day_forms_def digit_forms_iff n_def [symmetric])
  then show ?thesis unfolding d f(1) n_def .
qed

lemma day_form_match:
  assumes "1 \<le> d" "d \<le> 31" "D \<in> set (day_forms zeros d)"
  shows "(\<exists>tl. group_d zeros D = (D, []) # tl) \<and> int_of_ustr zeros D = d"
proof (cases "10 \<le> d \<and> d \<le> 29")
  case True
  define n where "n = nat d"
  have n: "10 \<le> n" "n \<le> 29" "d = int n" using True by (auto simp: n_def)
  from assms(3) True obtain u where D: "D = [48 + n div 10, u]" and u: "decimal zeros u = Some (n mod 10)"
    by (auto simp: day_forms_def digit_forms_iff n_def)
  have a: "48 + n div 10 = 49 \<or> 48 + n div 10 = 50"
    using tens_digit [OF n(1,2)] by auto
  note f = day_two_digits [OF a u]
  have "int_of_ustr zeros D = int (10 * (n div 10) + n mod 10)"
    unfolding D f(1) by simp
  then have "int_of_ustr zeros D = d" by (simp add: n(3))
  with f(6) show ?thesis by (simp add: D)
next
  case False
  with assms(1,2) have "d \<in> set ([1..9] @ [30, 31])" by auto
  with day_forms_ascii assms(3) have *: "group_d zeros D \<noteq> []" "hd (group_d zeros D) = (D, [])" "int_of_ustr zeros D = d"
    by blast+
  then show ?thesis by (cases "group_d zeros D") auto
qed


text \<open>A text of the accepted shape is matched to its end by the first match.\<close>

lemma month_token_match:
  assumes "M \<in> set month_tokens"
  shows "concat (map (\<lambda>(m, r3). concat (map (G m) (dot r3))) (group_m (M @ ustr ''.'' @ rest))) = G M rest"
proof -
  from assms have "M \<in> set (map ustr [''10'', ''11'', ''12'']) \<or> M \<in> set (one_digit (CHR ''0'')) \<or> M \<in> set (one_digit (CHR ''-''))"
    by (auto simp: month_tokens_def)
  then show ?thesis
    unfolding one_digit_def
    by (elim disjE; simp; elim disjE; simp add: group_m_def alt2_def alt1_def in_range_def is_chr_def code_def dot_def ustr_def)
qed

lemma group_Y_digits:
  "list_all (is_decimal zeros) [a, b, c, e] \<Longrightarrow> group_Y zeros (a # b # c # e # rest) = [([a, b, c, e], rest)]"
  by (simp add: group_Y_def)

lemma dot_Cons: "dot (ustr ''.'' @ x) = [x]"
  by (simp add: dot_def is_chr_def ustr_def)

lemma format_matches_form:
  assumes "list_all (is_decimal zeros) [a, b, c, e]" "M \<in> set month_tokens" "group_d zeros D = (D, []) # others"
  shows "\<exists>tl'. format_matches zeros ([a, b, c, e] @ ustr ''.'' @ M @ ustr ''.'' @ D) = ([a, b, c, e], M, D, []) # tl'"
proof -
  have "format_matches zeros ([a, b, c, e] @ ustr ''.'' @ M @ ustr ''.'' @ D)
      = concat (map (\<lambda>(m, r3). concat (map (\<lambda>r4. map (\<lambda>(d, r5). ([a, b, c, e], m, d, r5)) (group_d zeros r4)) (dot r3)))
          (group_m (M @ ustr ''.'' @ D)))"
    unfolding format_matches_def using assms(1) dot_Cons [of "M @ ustr ''.'' @ D"]
    by (simp add: group_Y_digits)
  also have "\<dots> = map (\<lambda>(d, r5). ([a, b, c, e], M, d, r5)) (group_d zeros D)"
    by (rule month_token_match [OF assms(2)])
  finally show ?thesis by (simp add: assms(3))
qed

lemma mk_date_iff: "mk_date y m d = Inr dt \<longleftrightarrow> dt = Date y m d \<and> valid_date (Date y m d)"
  by (auto simp: mk_date_def valid_date_def)

lemma mk_date_valid: "valid_date dt \<Longrightarrow> mk_date (year dt) (month dt) (day dt) = Inr dt"
  by (cases dt) (simp add: mk_date_iff)

lemma days_in_month_le: "days_in_month y m \<le> 31"
  by (simp add: days_in_month_def)

lemma int_range: "(1::int) \<le> m \<Longrightarrow> m \<le> 12 \<Longrightarrow> m \<in> set [1..12]"
  "(1::int) \<le> d \<Longrightarrow> d \<le> 31 \<Longrightarrow> d \<in> set [1..31]"
  by simp_all

lemma strptime_accepted:
  assumes v: "valid_date dt" and s: "s \<in> set (accepted_forms zeros dt)"
  shows "strptime_Ymd zeros s = Inr dt"
proof -
  from s obtain Y M D where Y: "Y \<in> set (year_forms zeros (year dt))" and M: "M \<in> set (month_forms (month dt))"
    and D: "D \<in> set (day_forms zeros (day dt))" and s: "s = Y @ ustr ''.'' @ M @ ustr ''.'' @ D"
    unfolding accepted_forms_def by auto
  from v have r: "1 \<le> year dt" "year dt \<le> 9999" "1 \<le> month dt" "month dt \<le> 12" "1 \<le> day dt" "day dt \<le> 31"
    using days_in_month_le [of "year dt" "month dt"] by (auto simp: valid_date_def)
  obtain a b c e where Yd: "Y = [a, b, c, e]" "list_all (is_decimal zeros) [a, b, c, e]"
      "int_of_ustr zeros [a, b, c, e] = year dt"
    using year_forms_digits [OF _ Y] r(1) by auto
  have Mt: "M \<in> set month_tokens" "int_of_ustr zeros M = month dt"
    using month_forms_tokens M int_range(1) [OF r(3,4)] by blast+
  obtain tl where Dt: "group_d zeros D = (D, []) # tl" "int_of_ustr zeros D = day dt"
    using day_form_match [OF r(5,6) D] by blast
  obtain tl' where "format_matches zeros s = ([a, b, c, e], M, D, []) # tl'"
    using format_matches_form [OF Yd(2) Mt(1) Dt(1)] unfolding s Yd(1) by blast
  then show ?thesis
    by (simp add: strptime_Ymd_def Yd(3) Mt(2) Dt(2) mk_date_valid [OF v])
qed

lemma strptime_accepts_only:
  assumes "strptime_Ymd zeros s = Inr dt"
  shows "valid_date dt \<and> s \<in> set (accepted_forms zeros dt)"
proof -
  from assms obtain Y m d tl where fm: "format_matches zeros s = (Y, m, d, []) # tl"
    and mk: "mk_date (int_of_ustr zeros Y) (int_of_ustr zeros m) (int_of_ustr zeros d) = Inr dt"
    by (auto simp: strptime_Ymd_def split: list.splits if_splits)
  then have "(Y, m, d, []) \<in> set (format_matches zeros s)" by simp
  from format_matches_mem [OF this] obtain a b c e where
    s: "s = Y @ ustr ''.'' @ m @ ustr ''.'' @ d" and Y: "Y = [a, b, c, e]" "list_all (is_decimal zeros) [a, b, c, e]"
    and m: "m \<in> set month_tokens"
    and d: "d \<in> set day_tokens \<or> (\<exists>a u. d = [a, u] \<and> a \<in> {49, 50} \<and> is_decimal zeros u)"
    by auto
  from mk have dt: "dt = Date (int_of_ustr zeros Y) (int_of_ustr zeros m) (int_of_ustr zeros d)" and v: "valid_date dt"
    by (auto simp: mk_date_iff)
  have "Y \<in> set (year_forms zeros (year dt))"
    using digits_year [OF Y(2)] by (simp add: dt Y(1))
  moreover have "m \<in> set (month_forms (month dt))"
    using month_tokens_forms m by (auto simp: dt)
  moreover have "d \<in> set (day_forms zeros (day dt))"
    using day_token_form [OF d] by (simp add: dt)
  ultimately have "s \<in> set (accepted_forms zeros dt)"
    unfolding accepted_forms_def s by auto
  with v show ?thesis by simp
qed

lemma Birthday_iff: "Birthday zeros s = Inr dt \<longleftrightarrow> strptime_Ymd zeros s = Inr dt"
  by (simp add: Birthday_def split: sum.split)

lemma Birthday_fails: "(\<exists>dt. Birthday zeros s = Inr dt) \<or> Birthday zeros s = Inl (ValueError date_msg)"
  by (simp add: Birthday_def split: sum.split)

lemma padded_accepted:
  assumes "valid_date dt"
  shows "ustr (strftime_Ymd True dt) \<in> set (accepted_forms zeros dt)"
proof -
  from assms have r: "0 \<le> year dt" "year dt \<le> 9999" "1 \<le> day dt" "day dt \<le> 31"
    using days_in_month_le [of "year dt" "month dt"] by (auto simp: valid_date_def)
  have "ustr (zfill 4 (str_int (year dt))) \<in> set (year_forms zeros (year dt))"
    by (rule padded_year [OF r(1,2)])
  moreover have "ustr (zfill 2 (str_int (month dt))) \<in> set (month_forms (month dt))"
    by (rule padded_month)
  moreover have "ustr (zfill 2 (str_int (day dt))) \<in> set (day_forms zeros (day dt))"
    using padded_day int_range(2) [OF r(3,4)] by blast
  ultimately show ?thesis
    unfolding accepted_forms_def strftime_Ymd_def by (auto simp: ustr_def)
qed

lemma padded_length:
  assumes "valid_date dt"
  shows "length (strftime_Ymd True dt) = 10"
proof -
  from assms have r: "0 \<le> year dt" "year dt \<le> 9999" "0 \<le> month dt" "month dt \<le> 12" "0 \<le> day dt" "day dt \<le> 31"
    using days_in_month_le [of "year dt" "month dt"] by (auto simp: valid_date_def)
  have "nat (year dt) < 10000" using r by auto
  then have "length (zfill 4 (str_nat (nat (year dt)))) = 4"
    by (simp add: zfill4)
  moreover have "nat (month dt) < 100" "nat (day dt) < 100" using r by auto
  then have "length (zfill 2 (str_nat (nat (month dt)))) = 2" "length (zfill 2 (str_nat (nat (day dt)))) = 2"
    by (simp_all add: zfill2)
  ultimately show ?thesis using r by (simp add: strftime_Ymd_def str_int_def)
qed

lemma year_unpadded:
  assumes "1000 \<le> y" "y \<le> 9999"
  shows "zfill 4 (str_int y) = str_int y"
proof -
  define n where "n = nat y"
  define q1 q2 q3 where "q1 = n div 10" and "q2 = q1 div 10" and "q3 = q2 div 10"
  have n: "1000 \<le> n" "n < 10000" using assms by (auto simp: n_def)
  then have q: "10 \<le> n" "10 \<le> q1" "10 \<le> q2" "q3 < 10"
    unfolding q1_def q2_def q3_def by simp_all
  have "str_nat n = str_nat q3 @ [digit_char (q2 mod 10), digit_char (q1 mod 10), digit_char (n mod 10)]"
    using q(1-3) by (simp add: str_nat_step q1_def [symmetric] q2_def [symmetric] q3_def [symmetric])
  then have "length (str_nat n) = 4" using q(4) by (simp add: str_nat_1)
  then show ?thesis using assms by (simp add: zfill_def str_int_def n_def)
qed

lemma code_less: "code c < 256"
  by (simp add: code_def)

lemma spec_birthday_latin:
  assumes "spec_birthday s"
  shows "length s = 10 \<and> list_all (\<lambda>c. c < 256) s"
proof -
  from assms obtain dt where v: "valid_date dt" and s: "s = ustr (strftime_Ymd True dt)"
    unfolding spec_birthday_def strftime_Ymd_def by auto
  have "list_all (\<lambda>c. c < 256) (ustr t)" for t
    by (simp add: ustr_def list_all_iff code_less)
  with padded_length [OF v] show ?thesis by (simp add: s ustr_def)
qed

text \<open>The definitions that evaluate \<^verbatim>\<open>Birthday\<close> on a text.\<close>

lemmas strptime_defs = Birthday_def strptime_Ymd_def format_matches_def group_Y_def group_m_def group_d_def
  alt2_def alt1_def dot_def is_chr_def in_range_def is_decimal_def decimal_def int_of_ustr_def mk_date_def
  days_in_month_def is_leap_def ustr_def code_def unicode_zeros_def

text \<open>
  C4, amended. Constructing a \<^verbatim>\<open>Birthday\<close> from \<open>s\<close> succeeds with the date \<open>dt\<close>
  exactly when \<open>dt\<close> is a valid calendar date and \<open>s\<close> is one of its accepted forms: the
  year in four decimal digits of any script, a dot, the month in one or two ASCII
  digits, a dot, and the day in one or two ASCII digits or a blank and a digit, where
  the last digit of a day from 10 to 29 is a decimal digit of any script. Every other
  text is rejected with the validator's \<^verbatim>\<open>ValueError\<close>. Every text in the format
  \<^verbatim>\<open>YYYY.MM.DD\<close> with valid calendar values is accepted and renders back as itself. An
  accepted value renders in the format \<^verbatim>\<open>YYYY.MM.DD\<close>, from which the same date is
  constructed again, where the C library pads the year; where it does not, it does so
  for the years from 1000 on. This holds whatever scripts have decimal digits.
\<close>

theorem Birthday_construction:
  "(Birthday zeros s = Inr dt \<longleftrightarrow> valid_date dt \<and> s \<in> set (accepted_forms zeros dt)) \<and>
   ((\<exists>dt'. Birthday zeros s = Inr dt') \<or> Birthday zeros s = Inl (ValueError date_msg)) \<and>
   (spec_birthday s \<longrightarrow> (\<exists>dt'. Birthday zeros s = Inr dt' \<and> ustr (Birthday_str True dt') = s)) \<and>
   (Birthday zeros s = Inr dt \<longrightarrow>
      spec_birthday (ustr (Birthday_str True dt)) \<and> Birthday zeros (ustr (Birthday_str True dt)) = Inr dt \<and>
      (1000 \<le> year dt \<longrightarrow> Birthday_str False dt = Birthday_str True dt))"
proof -
  have iff: "Birthday zeros s = Inr dt \<longleftrightarrow> valid_date dt \<and> s \<in> set (accepted_forms zeros dt)" for s dt
    unfolding Birthday_iff using strptime_accepted strptime_accepts_only by blast
  have strict: "\<exists>dt'. Birthday zeros s = Inr dt' \<and> ustr (Birthday_str True dt') = s" if "spec_birthday s"
  proof -
    from that obtain dt' where v: "valid_date dt'" and s: "s = ustr (strftime_Ymd True dt')"
      unfolding spec_birthday_def strftime_Ymd_def by auto
    then have "Birthday zeros s = Inr dt'" using iff padded_accepted by simp
    with s show ?thesis by (auto simp: Birthday_str_def)
  qed
  have again: "spec_birthday (ustr (Birthday_str True dt)) \<and> Birthday zeros (ustr (Birthday_str True dt)) = Inr dt \<and>
      (1000 \<le> year dt \<longrightarrow> Birthday_str False dt = Birthday_str True dt)" if "Birthday zeros s = Inr dt"
  proof -
    from that have v: "valid_date dt" using iff by simp
    then have 1: "spec_birthday (ustr (Birthday_str True dt))"
      unfolding spec_birthday_def Birthday_str_def strftime_Ymd_def by auto
    have 2: "Birthday zeros (ustr (Birthday_str True dt)) = Inr dt"
      using v iff padded_accepted by (simp add: Birthday_str_def)
    have 3: "1000 \<le> year dt \<longrightarrow> Birthday_str False dt = Birthday_str True dt"
      using v year_unpadded [of "year dt"] by (simp add: Birthday_str_def strftime_Ymd_def valid_date_def)
    from 1 2 3 show ?thesis by blast
  qed
  from iff Birthday_fails strict again show ?thesis by blast
qed

theorem Birthday_construction_witness:
  "spec_birthday (ustr ''2024.02.29'') \<and>
   Birthday unicode_zeros (ustr ''2024.02.29'') = Inr (Date 2024 2 29) \<and>
   Birthday_str True (Date 2024 2 29) = ''2024.02.29'' \<and>
   Birthday_str False (Date 2024 2 29) = ''2024.02.29'' \<and>
   Birthday unicode_zeros (ustr ''2023.02.29'') = Inl (ValueError date_msg) \<and>
   Birthday unicode_zeros (ustr ''2024.02.30'') = Inl (ValueError date_msg) \<and>
   Birthday unicode_zeros arabic_birthday = Inr (Date 2024 2 19) \<and>
   arabic_birthday \<in> set (accepted_forms unicode_zeros (Date 2024 2 19)) \<and>
   Birthday unicode_zeros fullwidth_birthday = Inr (Date 2024 2 29) \<and>
   fullwidth_birthday \<in> set (accepted_forms unicode_zeros (Date 2024 2 29)) \<and>
   Birthday unicode_zeros (ustr ''2024.'' @ [1632, 1634] @ ustr ''.29'') = Inl (ValueError date_msg) \<and>
   Birthday unicode_zeros (ustr ''2024.02.3'' @ [1632]) = Inl (ValueError date_msg)"
proof -
  have a: "valid_date (Date 2024 2 29) \<and>
      ustr ''2024.02.29'' = ustr (zfill 4 (str_int (year (Date 2024 2 29))) @ ''.''
        @ zfill 2 (str_int (month (Date 2024 2 29))) @ ''.'' @ zfill 2 (str_int (day (Date 2024 2 29))))"
    by code_simp
  then have i: "spec_birthday (ustr ''2024.02.29'')"
    unfolding spec_birthday_def by blast
  have b: "Birthday_str True (Date 2024 2 29) = ''2024.02.29''"
    by code_simp
  have c: "(1000::int) \<le> year (Date 2024 2 29)"
    by simp
  obtain dt' where d: "Birthday unicode_zeros (ustr ''2024.02.29'') = Inr dt'"
      "ustr (Birthday_str True dt') = ustr ''2024.02.29''"
    using Birthday_construction [of unicode_zeros "ustr ''2024.02.29''"] i by blast
  have "Birthday unicode_zeros (ustr (Birthday_str True dt')) = Inr dt'"
    using Birthday_construction [of unicode_zeros "ustr ''2024.02.29''" dt'] d(1) by blast
  moreover have "Birthday unicode_zeros (ustr ''2024.02.29'') = Inr (Date 2024 2 29)"
    by (simp add: strptime_defs)
  ultimately have g: "Birthday unicode_zeros (ustr ''2024.02.29'') = Inr (Date 2024 2 29)"
    by (simp add: d(2))
  have h: "Birthday_str False (Date 2024 2 29) = Birthday_str True (Date 2024 2 29)"
    using Birthday_construction [of unicode_zeros "ustr ''2024.02.29''" "Date 2024 2 29"] g c by blast
  have e: "Birthday unicode_zeros (ustr ''2024.02.30'') = Inl (ValueError date_msg)"
    by (simp add: strptime_defs)
  have f: "Birthday unicode_zeros (ustr ''2023.02.29'') = Inl (ValueError date_msg)"
    by (simp add: strptime_defs)
  have j: "Birthday unicode_zeros arabic_birthday = Inr (Date 2024 2 19)"
    by (simp add: strptime_defs arabic_birthday_def)
  have k: "arabic_birthday \<in> set (accepted_forms unicode_zeros (Date 2024 2 19))"
    using Birthday_construction [of unicode_zeros arabic_birthday "Date 2024 2 19"] j by blast
  have l: "Birthday unicode_zeros fullwidth_birthday = Inr (Date 2024 2 29)"
    by (simp add: strptime_defs fullwidth_birthday_def)
  have m: "fullwidth_birthday \<in> set (accepted_forms unicode_zeros (Date 2024 2 29))"
    using Birthday_construction [of unicode_zeros fullwidth_birthday "Date 2024 2 29"] l by blast
  have n: "Birthday unicode_zeros (ustr ''2024.'' @ [1632, 1634] @ ustr ''.29'') = Inl (ValueError date_msg)"
    by (simp add: strptime_defs)
  have o: "Birthday unicode_zeros (ustr ''2024.02.3'' @ [1632]) = Inl (ValueError date_msg)"
    by (simp add: strptime_defs)
  from g h b e f i j k l m n o show ?thesis by simp
qed

theorem Birthday_short_counterexample:
  "Birthday unicode_zeros short_birthday = Inr (Date 2024 2 9) \<and> \<not> spec_birthday short_birthday \<and>
   Birthday unicode_zeros arabic_birthday = Inr (Date 2024 2 19) \<and> \<not> spec_birthday arabic_birthday \<and>
   Birthday unicode_zeros fullwidth_birthday = Inr (Date 2024 2 29) \<and> \<not> spec_birthday fullwidth_birthday"
proof -
  have 1: "Birthday unicode_zeros short_birthday = Inr (Date 2024 2 9)"
    by (simp add: strptime_defs short_birthday_def)
  have 2: "\<not> spec_birthday short_birthday"
  proof
    assume "spec_birthday short_birthday"
    then have "length short_birthday = 10" using spec_birthday_latin by blast
    then show False by (simp add: short_birthday_def ustr_def)
  qed
  have 3: "Birthday unicode_zeros arabic_birthday = Inr (Date 2024 2 19)"
    by (simp add: strptime_defs arabic_birthday_def)
  have 4: "\<not> spec_birthday arabic_birthday"
  proof
    assume "spec_birthday arabic_birthday"
    then have "list_all (\<lambda>c. c < 256) arabic_birthday" using spec_birthday_latin by blast
    then show False by (simp add: arabic_birthday_def)
  qed
  have 5: "Birthday unicode_zeros fullwidth_birthday = Inr (Date 2024 2 29)"
    by (simp add: strptime_defs fullwidth_birthday_def)
  have 6: "\<not> spec_birthday fullwidth_birthday"
  proof
    assume "spec_birthday fullwidth_birthday"
    then have "list_all (\<lambda>c. c < 256) fullwidth_birthday" using spec_birthday_latin by blast
    then show False by (simp add: fullwidth_birthday_def)
  qed
  from 1 2 3 4 5 6 show ?thesis by simp
qed

subsection \<open>The calendar\<close>

text \<open>
  The ordinal of a date grows by one with each day, so \<open>date_add_days\<close> gives the date
  whose ordinal is the sum, and the order of dates is the order of their ordinals.
\<close>

lemma div_step:
  fixes y k :: int
  assumes "0 < k"
  shows "y div k = (y - 1) div k + (if y mod k = 0 then 1 else 0)"
proof (cases "y mod k = 0")
  case True
  then have "y - 1 = (k - 1) + (y div k - 1) * k"
    using mult_div_mod_eq [of k y] by (simp add: algebra_simps)
  then have "(y - 1) div k = ((k - 1) + (y div k - 1) * k) div k"
    by (rule arg_cong [where f = "\<lambda>x. x div k"])
  also have "\<dots> = (y div k - 1) + (k - 1) div k" using assms by (intro div_mult_self1) simp
  also have "(k - 1) div k = 0" using assms by (simp add: div_pos_pos_trivial)
  finally show ?thesis using True by simp
next
  case False
  have "0 \<le> y mod k" "y mod k < k" using assms by simp_all
  with False have r: "0 \<le> y mod k - 1" "y mod k - 1 < k" by simp_all
  have "y - 1 = (y mod k - 1) + (y div k) * k"
    using mult_div_mod_eq [of k y] by (simp add: algebra_simps)
  then have "(y - 1) div k = ((y mod k - 1) + (y div k) * k) div k"
    by (rule arg_cong [where f = "\<lambda>x. x div k"])
  also have "\<dots> = y div k + (y mod k - 1) div k" using assms by (intro div_mult_self1) simp
  also have "(y mod k - 1) div k = 0" using r by (simp add: div_pos_pos_trivial)
  finally show ?thesis using False by simp
qed

lemma mod_chain:
  fixes y :: int
  shows "y mod 400 = 0 \<Longrightarrow> y mod 100 = 0" "y mod 100 = 0 \<Longrightarrow> y mod 4 = 0"
proof -
  have "(100::int) dvd 400" "(4::int) dvd 100" by simp_all
  then show "y mod 400 = 0 \<Longrightarrow> y mod 100 = 0" "y mod 100 = 0 \<Longrightarrow> y mod 4 = 0"
    by (meson dvd_trans mod_eq_0_iff_dvd)+
qed


lemma days_before_year_Suc:
  "days_before_year (y + 1) = days_before_year y + (if is_leap y then 366 else 365)"
proof -
  define a b c where "a = (y - 1) div 4" and "b = (y - 1) div 100" and "c = (y - 1) div 400"
  have d: "y div 4 = a + (if y mod 4 = 0 then 1 else 0)"
       "y div 100 = b + (if y mod 100 = 0 then 1 else 0)"
       "y div 400 = c + (if y mod 400 = 0 then 1 else 0)"
    unfolding a_def b_def c_def by (rule div_step, simp)+
  have "days_before_year (y + 1) = y * 365 + y div 4 - y div 100 + y div 400"
    by (simp add: days_before_year_def Let_def)
  moreover have "days_before_year y = (y - 1) * 365 + a - b + c"
    by (simp add: days_before_year_def Let_def a_def b_def c_def)
  ultimately have e: "days_before_year (y + 1) - days_before_year y =
      365 + (if y mod 4 = 0 then 1 else 0) - (if y mod 100 = 0 then 1 else 0) + (if y mod 400 = 0 then 1 else 0)"
    unfolding d by simp
  consider (n4) "y mod 4 \<noteq> 0" | (n100) "y mod 4 = 0" "y mod 100 \<noteq> 0"
    | (n400) "y mod 100 = 0" "y mod 400 \<noteq> 0" | (y400) "y mod 400 = 0"
    by fastforce
  then show ?thesis
  proof cases
    case n4
    then have "y mod 100 \<noteq> 0" "y mod 400 \<noteq> 0" using mod_chain [of y] by auto
    with n4 e show ?thesis by (simp add: is_leap_def)
  next
    case n100
    then have "y mod 400 \<noteq> 0" using mod_chain [of y] by auto
    with n100 e show ?thesis by (simp add: is_leap_def)
  next
    case n400
    then have "y mod 4 = 0" using mod_chain [of y] by auto
    with n400 e show ?thesis by (simp add: is_leap_def)
  next
    case y400
    then have "y mod 100 = 0" "y mod 4 = 0" using mod_chain [of y] by auto
    with y400 e show ?thesis by (simp add: is_leap_def)
  qed
qed

lemma month_cases:
  fixes m :: int
  assumes "1 \<le> m" "m \<le> 12"
  shows "m = 1 \<or> m = 2 \<or> m = 3 \<or> m = 4 \<or> m = 5 \<or> m = 6 \<or> m = 7 \<or> m = 8 \<or> m = 9 \<or> m = 10 \<or> m = 11 \<or> m = 12"
  using assms by arith

lemma days_before_month_Suc:
  assumes "1 \<le> m" "m < 12"
  shows "days_before_month y (m + 1) = days_before_month y m + days_in_month y m"
proof -
  from assms have "m = 1 \<or> m = 2 \<or> m = 3 \<or> m = 4 \<or> m = 5 \<or> m = 6 \<or> m = 7 \<or> m = 8 \<or> m = 9 \<or> m = 10 \<or> m = 11"
    by arith
  then show ?thesis
    by (elim disjE; simp add: days_before_month_def days_in_month_def)
qed

lemma days_before_month_12: "days_before_month y 12 + 31 = (if is_leap y then 366 else 365)"
  by (simp add: days_before_month_def)

lemma days_before_month_1: "days_before_month y 1 = 0"
  by (simp add: days_before_month_def)

lemma days_in_month_pos: "28 \<le> days_in_month y m"
  by (simp add: days_in_month_def)

lemma days_in_month_12: "days_in_month y 12 = 31"
  by (simp add: days_in_month_def)

lemma toordinal_next_day:
  assumes "calendar_date d"
  shows "toordinal (next_day d) = toordinal d + 1" "calendar_date (next_day d)"
proof -
  obtain y m k where d: "d = Date y m k" by (cases d)
  from assms have c: "1 \<le> m" "m \<le> 12" "1 \<le> k" "k \<le> days_in_month y m"
    by (simp_all add: calendar_date_def d)
  consider (inner) "k < days_in_month y m" | (month_end) "k = days_in_month y m" "m < 12"
    | (year_end) "k = days_in_month y m" "m = 12"
    using c by linarith
  then have "toordinal (next_day d) = toordinal d + 1 \<and> calendar_date (next_day d)"
  proof cases
    case inner
    with c show ?thesis by (simp add: next_day_def toordinal_def calendar_date_def d)
  next
    case month_end
    with c days_in_month_pos [of y "m + 1"] show ?thesis
      by (simp add: next_day_def toordinal_def calendar_date_def d days_before_month_Suc)
  next
    case year_end
    with c days_before_month_12 [of y] days_in_month_pos [of "y + 1" 1] show ?thesis
      by (simp add: next_day_def toordinal_def calendar_date_def d days_before_year_Suc
          days_before_month_1 days_in_month_12 split: if_splits)
  qed
  then show "toordinal (next_day d) = toordinal d + 1" "calendar_date (next_day d)" by simp_all
qed

lemma toordinal_prev_day:
  assumes "calendar_date d"
  shows "toordinal (prev_day d) = toordinal d - 1" "calendar_date (prev_day d)"
proof -
  obtain y m k where d: "d = Date y m k" by (cases d)
  from assms have c: "1 \<le> m" "m \<le> 12" "1 \<le> k" "k \<le> days_in_month y m"
    by (simp_all add: calendar_date_def d)
  consider (inner) "1 < k" | (month_start) "k = 1" "1 < m" | (year_start) "k = 1" "m = 1"
    using c by linarith
  then have "toordinal (prev_day d) = toordinal d - 1 \<and> calendar_date (prev_day d)"
  proof cases
    case inner
    with c show ?thesis by (simp add: prev_day_def toordinal_def calendar_date_def d)
  next
    case month_start
    with c days_before_month_Suc [of "m - 1" y] days_in_month_pos [of y "m - 1"] show ?thesis
      by (simp add: prev_day_def toordinal_def calendar_date_def d)
  next
    case year_start
    with c days_before_month_12 [of "y - 1"] days_before_year_Suc [of "y - 1"] show ?thesis
      by (simp add: prev_day_def toordinal_def calendar_date_def d
          days_before_month_1 days_in_month_12 split: if_splits)
  qed
  then show "toordinal (prev_day d) = toordinal d - 1" "calendar_date (prev_day d)" by simp_all
qed

lemma toordinal_forward:
  "calendar_date d \<Longrightarrow> toordinal (forward n d) = toordinal d + int n \<and> calendar_date (forward n d)"
  by (induction n arbitrary: d) (simp_all add: toordinal_next_day)

lemma toordinal_backward:
  "calendar_date d \<Longrightarrow> toordinal (backward n d) = toordinal d - int n \<and> calendar_date (backward n d)"
  by (induction n arbitrary: d) (simp_all add: toordinal_prev_day)

lemma toordinal_shift_days:
  assumes "calendar_date d"
  shows "toordinal (shift_days n d) = toordinal d + n" "calendar_date (shift_days n d)"
  using toordinal_forward [OF assms, of "nat n"] toordinal_backward [OF assms, of "nat (- n)"]
  by (simp_all add: shift_days_def)

lemma days_before_year_mono:
  assumes "y \<le> z"
  shows "days_before_year y \<le> days_before_year z"
  using assms
proof (induction z rule: int_ge_induct)
  case base
  show ?case by simp
next
  case (step i)
  then show ?case using days_before_year_Suc [of i] by (simp split: if_splits)
qed

lemma days_before_month_mono:
  assumes "1 \<le> m" "m \<le> n" "n \<le> 12"
  shows "days_before_month y m \<le> days_before_month y n"
  using assms(2,1,3)
proof (induction n rule: int_ge_induct)
  case base
  show ?case by simp
next
  case (step i)
  then show ?case
    using days_before_month_Suc [of i y] days_in_month_pos [of y i] by simp
qed

lemma day_of_year_bounds:
  assumes "calendar_date d"
  shows "days_before_year (year d) < toordinal d" "toordinal d \<le> days_before_year (year d + 1)"
proof -
  from assms have c: "1 \<le> month d" "month d \<le> 12" "1 \<le> day d" "day d \<le> days_in_month (year d) (month d)"
    by (simp_all add: calendar_date_def)
  have "0 \<le> days_before_month (year d) (month d)"
    using days_before_month_mono [of 1 "month d" "year d"] c by (simp add: days_before_month_1)
  with c show "days_before_year (year d) < toordinal d"
    by (simp add: toordinal_def)
  have "days_before_month (year d) (month d) + days_in_month (year d) (month d) \<le> days_before_month (year d) 12 + 31"
  proof (cases "month d = 12")
    case True
    then show ?thesis by (simp add: days_in_month_12)
  next
    case False
    with c have "month d < 12" by simp
    then have "days_before_month (year d) (month d) + days_in_month (year d) (month d)
        = days_before_month (year d) (month d + 1)"
      using c by (simp add: days_before_month_Suc)
    also have "\<dots> \<le> days_before_month (year d) 12"
      using c \<open>month d < 12\<close> by (intro days_before_month_mono) simp_all
    finally show ?thesis by simp
  qed
  with c show "toordinal d \<le> days_before_year (year d + 1)"
    using days_before_month_12 [of "year d"]
    by (simp add: toordinal_def days_before_year_Suc split: if_splits)
qed

lemma date_lt_toordinal:
  assumes "calendar_date a" "calendar_date b" "date_lt a b"
  shows "toordinal a < toordinal b"
proof -
  from assms(1) have ca: "1 \<le> month a" "month a \<le> 12" "1 \<le> day a" "day a \<le> days_in_month (year a) (month a)"
    by (simp_all add: calendar_date_def)
  from assms(2) have cb: "1 \<le> month b" "month b \<le> 12" "1 \<le> day b" "day b \<le> days_in_month (year b) (month b)"
    by (simp_all add: calendar_date_def)
  from assms(3) consider (years) "year a < year b" | (months) "year a = year b" "month a < month b"
    | (days) "year a = year b" "month a = month b" "day a < day b"
    by (auto simp: date_lt_def)
  then show ?thesis
  proof cases
    case years
    have "toordinal a \<le> days_before_year (year a + 1)"
      by (rule day_of_year_bounds [OF assms(1)])
    also have "\<dots> \<le> days_before_year (year b)"
      using years by (intro days_before_year_mono) simp
    also have "\<dots> < toordinal b"
      by (rule day_of_year_bounds [OF assms(2)])
    finally show ?thesis .
  next
    case months
    have "days_before_month (year a) (month a) + days_in_month (year a) (month a)
        = days_before_month (year a) (month a + 1)"
      using ca cb months by (simp add: days_before_month_Suc)
    also have "\<dots> \<le> days_before_month (year a) (month b)"
      using ca cb months by (intro days_before_month_mono) simp_all
    finally show ?thesis
      using ca cb months by (simp add: toordinal_def)
  next
    case days
    then show ?thesis by (simp add: toordinal_def)
  qed
qed

lemma date_order_toordinal:
  assumes "calendar_date a" "calendar_date b"
  shows "date_lt a b \<longleftrightarrow> toordinal a < toordinal b"
    and "date_le a b \<longleftrightarrow> toordinal a \<le> toordinal b"
    and "a = b \<longleftrightarrow> toordinal a = toordinal b"
proof -
  have tri: "date_lt a b \<or> a = b \<or> date_lt b a"
    by (cases a; cases b) (auto simp: date_lt_def)
  have 1: "date_lt a b \<Longrightarrow> toordinal a < toordinal b"
    by (rule date_lt_toordinal [OF assms])
  have 2: "date_lt b a \<Longrightarrow> toordinal b < toordinal a"
    by (rule date_lt_toordinal [OF assms(2,1)])
  show "date_lt a b \<longleftrightarrow> toordinal a < toordinal b"
    using tri 1 2 by auto
  show "date_le a b \<longleftrightarrow> toordinal a \<le> toordinal b"
    unfolding date_le_def using tri 1 2 by auto
  show "a = b \<longleftrightarrow> toordinal a = toordinal b"
    using tri 1 2 by auto
qed

lemma valid_calendar: "valid_date d \<Longrightarrow> calendar_date d"
  by (simp add: valid_date_def calendar_date_def)

subsection \<open>Regular birthdays\<close>

text \<open>
  For a birthday other than 29 February \<^verbatim>\<open>days_to_birthday\<close> does what is specified: the
  today result on the day itself, and otherwise the number of days, at least one, to
  the next anniversary; a birthday that falls tomorrow gives 1.
\<close>

lemma replace_year_regular:
  assumes "regular_birthday b" "1 \<le> y" "y \<le> 9999"
  shows "replace_year b y = Inr (anniversary b y)" "valid_date (anniversary b y)"
proof -
  from assms(1) have c: "1 \<le> month b" "month b \<le> 12" "1 \<le> day b" "day b \<le> days_in_month (year b) (month b)"
    "\<not> (month b = 2 \<and> day b = 29)"
    by (simp_all add: regular_birthday_def valid_date_def)
  have "day b \<le> days_in_month y (month b)"
    using c(4,5) by (simp add: days_in_month_def split: if_splits)
  with c assms(2,3) show "replace_year b y = Inr (anniversary b y)" "valid_date (anniversary b y)"
    by (simp_all add: replace_year_def mk_date_def anniversary_def valid_date_def)
qed

lemma days_before_year_values: "days_before_year 2 = 365" "days_before_year 10000 = MAXORDINAL"
  by (simp_all add: days_before_year_def MAXORDINAL_def)

lemma ordinary_day_ordinal:
  assumes "valid_date today"
  shows "1 \<le> toordinal today" "toordinal today \<le> MAXORDINAL"
    and "2 \<le> year today \<Longrightarrow> 366 \<le> toordinal today"
proof -
  have c: "calendar_date today" "1 \<le> year today" "year today \<le> 9999"
    using assms by (simp_all add: valid_date_def calendar_date_def)
  have "days_before_year 1 \<le> days_before_year (year today)"
    using c by (intro days_before_year_mono) simp
  then show "1 \<le> toordinal today"
    using day_of_year_bounds(1) [OF c(1)] by (simp add: days_before_year_def)
  have "days_before_year (year today + 1) \<le> days_before_year 10000"
    using c by (intro days_before_year_mono) simp
  then show "toordinal today \<le> MAXORDINAL"
    using day_of_year_bounds(2) [OF c(1)] by (simp add: days_before_year_values)
  show "366 \<le> toordinal today" if "2 \<le> year today"
  proof -
    have "days_before_year 2 \<le> days_before_year (year today)"
      using that by (intro days_before_year_mono) simp
    then show ?thesis
      using day_of_year_bounds(1) [OF c(1)] by (simp add: days_before_year_values)
  qed
qed

lemma yesterday:
  assumes "ordinary_day today"
  shows "date_add_days today (- 1) = Inr (prev_day today)"
proof -
  from assms have v: "valid_date today" "2 \<le> year today" by (simp_all add: ordinary_day_def)
  have "shift_days (- 1) today = prev_day today"
    by (simp add: shift_days_def)
  then show ?thesis
    using ordinary_day_ordinal [OF v(1)] v(2) by (simp add: date_add_days_def timedelta_days_def Let_def)
qed

lemma le_yesterday:
  assumes "calendar_date a" "calendar_date t"
  shows "date_le a (prev_day t) \<longleftrightarrow> date_lt a t"
    and "date_lt a (prev_day t) \<longleftrightarrow> date_lt a t \<and> a \<noteq> prev_day t"
proof -
  have p: "calendar_date (prev_day t)" "toordinal (prev_day t) = toordinal t - 1"
    using toordinal_prev_day [OF assms(2)] by simp_all
  show "date_le a (prev_day t) \<longleftrightarrow> date_lt a t"
    using date_order_toordinal [OF assms(1) p(1)] date_order_toordinal [OF assms] p(2) by simp
  show "date_lt a (prev_day t) \<longleftrightarrow> date_lt a t \<and> a \<noteq> prev_day t"
    using date_order_toordinal [OF assms(1) p(1)] date_order_toordinal [OF assms] p(2) by auto
qed

lemma days_to_birthday_regular:
  assumes t: "ordinary_day today" and b: "birthday r = Some b" "regular_birthday b"
  shows "days_to_birthday today r =
           (if month b = month today \<and> day b = day today then Inr Birthday_today
            else Inr (Days (toordinal (next_anniversary today b) - toordinal today)))"
    and "1 \<le> toordinal (next_anniversary today b) - toordinal today
         \<or> next_anniversary today b = today"
    and "next_anniversary today b = next_day today \<Longrightarrow> days_to_birthday today r = Inr (Days 1)"
proof -
  from t have v: "valid_date today" "1 \<le> year today" "year today \<le> 9999" "1 \<le> year today + 1" "year today + 1 \<le> 9999"
    by (simp_all add: ordinary_day_def)
  let ?a = "anniversary b (year today)"
  have r1: "replace_year b (year today) = Inr ?a" and va: "valid_date ?a"
    using replace_year_regular [OF b(2) v(2,3)] by simp_all
  have r2: "replace_year ?a (year today + 1) = Inr (anniversary b (year today + 1))"
    and vn: "valid_date (anniversary b (year today + 1))"
    using replace_year_regular [OF b(2) v(4,5)] by (simp_all add: replace_year_def anniversary_def)
  have eq: "today = ?a \<longleftrightarrow> month b = month today \<and> day b = day today"
    by (cases today) (auto simp: anniversary_def)
  have cal: "calendar_date ?a" "calendar_date today" "calendar_date (anniversary b (year today + 1))"
    using va v(1) vn by (simp_all add: valid_calendar)
  have le: "date_le ?a (prev_day today) \<longleftrightarrow> date_lt ?a today"
    by (rule le_yesterday [OF cal(1,2)])
  show main: "days_to_birthday today r =
           (if month b = month today \<and> day b = day today then Inr Birthday_today
            else Inr (Days (toordinal (next_anniversary today b) - toordinal today)))"
    by (simp add: days_to_birthday_def b(1) r1 r2 eq yesterday [OF t] le next_anniversary_def)
  have lt_next: "date_lt today (anniversary b (year today + 1))"
    by (cases today) (simp add: date_lt_def anniversary_def)
  show pos: "1 \<le> toordinal (next_anniversary today b) - toordinal today \<or> next_anniversary today b = today"
  proof (cases "date_lt ?a today")
    case True
    then show ?thesis
      using date_order_toordinal(1) [OF cal(2,3)] lt_next by (simp add: next_anniversary_def)
  next
    case False
    then have "date_lt today ?a \<or> ?a = today"
      by (cases today) (auto simp: date_lt_def anniversary_def)
    then show ?thesis
      using False date_order_toordinal(1) [OF cal(2,1)] by (auto simp: next_anniversary_def)
  qed
  show "days_to_birthday today r = Inr (Days 1)" if "next_anniversary today b = next_day today"
  proof -
    have "toordinal (next_anniversary today b) - toordinal today = 1"
      using that toordinal_next_day(1) [OF cal(2)] by simp
    moreover have "\<not> (month b = month today \<and> day b = day today)"
    proof
      assume "month b = month today \<and> day b = day today"
      then have "next_anniversary today b = today"
        using eq by (simp add: next_anniversary_def date_lt_def)
      with that have "toordinal (next_day today) = toordinal today" by simp
      then show False using toordinal_next_day(1) [OF cal(2)] by simp
    qed
    ultimately show ?thesis using main by simp
  qed
qed

subsection \<open>The query for regular birthdays\<close>

text \<open>
  With regular birthdays only, \<^verbatim>\<open>birthday_in_given_days\<close> returns the entries of the
  listed items. An item is listed exactly when its next anniversary is in the window
  and this year's anniversary was not yesterday; below 364 days the exception does not
  show, as next year's anniversary after yesterday's one is at least 364 days ahead.
\<close>

lemma given_days_loop_regular:
  assumes t: "ordinary_day today" and r: "regular_book items"
  shows "given_days_loop today date_value items contact_birth =
           Inr (contact_birth @ map (entry today) (filter (listed today date_value) items))"
  using r
proof (induction items arbitrary: contact_birth)
  case Nil
  show ?case by simp
next
  case (Cons item items)
  obtain n rec where item: "item = (n, rec)" by (cases item)
  from Cons.prems have rest: "regular_book items"
    by (simp add: regular_book_def)
  note IH = Cons.IH [OF rest]
  show ?case
  proof (cases "birthday rec")
    case None
    then show ?thesis by (simp add: item IH listed_def)
  next
    case (Some b)
    with Cons.prems have b: "regular_birthday b"
      by (simp add: regular_book_def item)
    from t have v: "1 \<le> year today" "year today \<le> 9999" "1 \<le> year today + 1" "year today + 1 \<le> 9999"
      by (simp_all add: ordinary_day_def)
    have r1: "replace_year b (year today) = Inr (anniversary b (year today))"
      using replace_year_regular [OF b v(1,2)] by simp
    have r2: "replace_year (anniversary b (year today)) (year today + 1) = Inr (anniversary b (year today + 1))"
      using replace_year_regular [OF b v(3,4)] by (simp add: replace_year_def anniversary_def)
    obtain days where d: "days_to_birthday today rec = Inr days"
      using days_to_birthday_regular(1) [OF t Some b] by (auto split: if_splits)
    show ?thesis
      by (simp add: item Some r1 r2 yesterday [OF t] d IH listed_def entry_def query_anniversary_def)
  qed
qed

lemma anniversary_gap:
  assumes "1 \<le> month b"
  shows "365 \<le> toordinal (anniversary b (y + 1)) - toordinal (anniversary b y)"
proof -
  have "days_before_month y (month b) \<le> days_before_month (y + 1) (month b) + (if is_leap y then 1 else 0)"
    by (simp add: days_before_month_def)
  then show ?thesis
    by (simp add: toordinal_def anniversary_def days_before_year_Suc split: if_splits)
qed

lemma listed_iff:
  assumes t: "ordinary_day today" and b: "birthday (snd item) = Some b" "regular_birthday b"
    and dv: "calendar_date date_value"
  shows "listed today date_value item \<longleftrightarrow>
           date_le today (next_anniversary today b) \<and> date_le (next_anniversary today b) date_value \<and>
           anniversary b (year today) \<noteq> prev_day today"
proof -
  from t have v: "valid_date today" "1 \<le> year today" "year today \<le> 9999" "1 \<le> year today + 1" "year today + 1 \<le> 9999"
    by (simp_all add: ordinary_day_def)
  let ?a = "anniversary b (year today)"
  have cal: "calendar_date ?a" "calendar_date today" "calendar_date (anniversary b (year today + 1))"
    using replace_year_regular(2) [OF b(2) v(2,3)] replace_year_regular(2) [OF b(2) v(4,5)] v(1)
    by (simp_all add: valid_calendar)
  have p: "calendar_date (prev_day today)" "toordinal (prev_day today) = toordinal today - 1"
    using toordinal_prev_day [OF cal(2)] by simp_all
  have lt: "date_lt ?a (prev_day today) \<longleftrightarrow> date_lt ?a today \<and> ?a \<noteq> prev_day today"
    by (rule le_yesterday(2) [OF cal(1,2)])
  show ?thesis
  proof (cases "?a = prev_day today")
    case True
    then have "\<not> date_le today ?a"
      using date_order_toordinal(2) [OF cal(2) p(1)] p(2) by simp
    moreover have "\<not> date_lt (prev_day today) (prev_day today)"
      by (simp add: date_lt_def)
    ultimately show ?thesis using True
      by (simp add: listed_def b(1) query_anniversary_def)
  next
    case False
    then have "query_anniversary today b = next_anniversary today b"
      by (simp add: query_anniversary_def next_anniversary_def lt)
    with False show ?thesis
      by (simp add: listed_def b(1))
  qed
qed

lemma yesterday_is_far:
  assumes t: "ordinary_day today" and b: "regular_birthday b"
    and y: "anniversary b (year today) = prev_day today"
  shows "next_anniversary today b = anniversary b (year today + 1)"
    and "364 \<le> toordinal (next_anniversary today b) - toordinal today"
proof -
  from t have v: "valid_date today" by (simp add: ordinary_day_def)
  have cal: "calendar_date today" using v by (simp add: valid_calendar)
  have p: "calendar_date (prev_day today)" "toordinal (prev_day today) = toordinal today - 1"
    using toordinal_prev_day [OF cal] by simp_all
  have "date_lt (prev_day today) today"
    using date_order_toordinal(1) [OF p(1) cal] p(2) by simp
  then show n: "next_anniversary today b = anniversary b (year today + 1)"
    by (simp add: next_anniversary_def y)
  have "1 \<le> month b" using b by (simp add: regular_birthday_def valid_date_def)
  from anniversary_gap [OF this, of "year today"] show "364 \<le> toordinal (next_anniversary today b) - toordinal today"
    unfolding n y p(2) by simp
qed

lemma birthday_in_given_days_regular:
  assumes t: "ordinary_day today" and r: "regular_book book" and n: "0 \<le> N" "N < 365"
  shows "\<exists>date_value. date_add_days today N = Inr date_value \<and> toordinal date_value = toordinal today + N \<and>
           birthday_in_given_days today book N =
             Inr (if filter (listed today date_value) book = []
                  then ([cyan ''No Birthday during this period.''], None)
                  else ([], Some (map (entry today) (filter (listed today date_value) book))))"
    and "N < 364 \<Longrightarrow> item \<in> set book \<Longrightarrow> birthday (snd item) = Some b \<Longrightarrow>
           listed today (shift_days N today) item \<longleftrightarrow>
             date_le today (next_anniversary today b) \<and> date_le (next_anniversary today b) (shift_days N today)"
proof -
  from t have v: "valid_date today" "year today \<le> 9998" by (simp_all add: ordinary_day_def)
  have cal: "calendar_date today" using v by (simp add: valid_calendar)
  have ord: "1 \<le> toordinal today" using ordinary_day_ordinal(1) [OF v(1)] .
  have "days_before_year (year today + 1) \<le> days_before_year 9999"
    using v(2) by (intro days_before_year_mono) simp
  also have "days_before_year 9999 = MAXORDINAL - 365"
    by (simp add: days_before_year_def MAXORDINAL_def)
  finally have "toordinal today + N \<le> MAXORDINAL"
    using day_of_year_bounds(2) [OF cal] n by simp
  with ord n have a: "date_add_days today N = Inr (shift_days N today)"
    by (simp add: date_add_days_def timedelta_days_def Let_def)
  have s: "toordinal (shift_days N today) = toordinal today + N" "calendar_date (shift_days N today)"
    using toordinal_shift_days [OF cal] by simp_all
  have "birthday_in_given_days today book N =
             Inr (if filter (listed today (shift_days N today)) book = []
                  then ([cyan ''No Birthday during this period.''], None)
                  else ([], Some (map (entry today) (filter (listed today (shift_days N today)) book))))"
    by (simp add: birthday_in_given_days_def a given_days_loop_regular [OF t r])
  with a s(1) show "\<exists>date_value. date_add_days today N = Inr date_value \<and> toordinal date_value = toordinal today + N \<and>
           birthday_in_given_days today book N =
             Inr (if filter (listed today date_value) book = []
                  then ([cyan ''No Birthday during this period.''], None)
                  else ([], Some (map (entry today) (filter (listed today date_value) book))))"
    by blast
  show "listed today (shift_days N today) item \<longleftrightarrow>
             date_le today (next_anniversary today b) \<and> date_le (next_anniversary today b) (shift_days N today)"
    if "N < 364" "item \<in> set book" "birthday (snd item) = Some b"
  proof -
    from r that have b: "regular_birthday b" by (auto simp: regular_book_def)
    from t have y: "1 \<le> year today" "year today \<le> 9999" "1 \<le> year today + 1" "year today + 1 \<le> 9999"
      by (simp_all add: ordinary_day_def)
    have cn: "calendar_date (next_anniversary today b)"
      using replace_year_regular(2) [OF b y(1,2)] replace_year_regular(2) [OF b y(3,4)]
      by (simp add: next_anniversary_def valid_calendar)
    have "\<not> date_le (next_anniversary today b) (shift_days N today)"
      if "anniversary b (year today) = prev_day today"
      using yesterday_is_far(2) [OF t b that] date_order_toordinal(2) [OF cn s(2)] s(1) \<open>N < 364\<close>
      by simp
    then show ?thesis
      using listed_iff [OF t that(3) b s(2)] by blast
  qed
qed

subsection \<open>Searching the store\<close>

text \<open>\<open>str_in\<close> is the substring test.\<close>

lemma str_in_iff: "str_in a b \<longleftrightarrow> (\<exists>p q. b = p @ a @ q)"
proof (induction b)
  case Nil
  show ?case by auto
next
  case (Cons c cs)
  have start: "startswith (c # cs) a \<longleftrightarrow> (\<exists>q. c # cs = a @ q)"
    unfolding startswith_def by (metis append_eq_conv_conj)
  show ?case (is "?L = ?R")
  proof
    assume ?L
    then consider "startswith (c # cs) a" | "str_in a cs" by auto
    then show ?R
    proof cases
      case 1
      then obtain q where "c # cs = [] @ a @ q" using start by auto
      then show ?thesis by blast
    next
      case 2
      then obtain p q where "cs = p @ a @ q" using Cons.IH by blast
      then have "c # cs = (c # p) @ a @ q" by simp
      then show ?thesis by blast
    qed
  next
    assume ?R
    then obtain p q where pq: "c # cs = p @ a @ q" by blast
    show ?L
    proof (cases p)
      case Nil
      with pq have "startswith (c # cs) a" using start by auto
      then show ?thesis by simp
    next
      case (Cons x p')
      with pq have "cs = p' @ a @ q" by simp
      then have "str_in a cs" using Cons.IH by blast
      then show ?thesis by simp
    qed
  qed
qed

lemma prepend_simps [simp]:
  "prepend acc (Inl e) = Inl e" "prepend acc (Inr s) = Inr (acc @ s)"
  "prepend [] x = x" "prepend a (prepend b x) = prepend (a @ b) x"
  by (simp_all add: prepend_def split: sum.split)

lemma case_prepend:
  "(case prepend r X of Inl e \<Rightarrow> Inl e | Inr r1 \<Rightarrow> prepend r1 Y)
     = prepend r (case X of Inl e \<Rightarrow> Inl e | Inr s \<Rightarrow> prepend s Y)"
  by (cases X) simp_all

lemma render_all_Cons:
  "render_all pad today (x # xs) =
     (case str_Record pad today (fst x) of
        Inl e \<Rightarrow> Inl e
      | Inr s \<Rightarrow> prepend (s @ (if snd x then [newline] else [])) (render_all pad today xs))"
  by (cases x) (simp add: prepend_def split: sum.split)

lemma render_all_append:
  "render_all pad today (xs @ ys) =
     (case render_all pad today xs of Inl e \<Rightarrow> Inl e | Inr s \<Rightarrow> prepend s (render_all pad today ys))"
proof (induction xs)
  case Nil
  show ?case by simp
next
  case (Cons x xs)
  show ?case
  proof (cases "str_Record pad today (fst x)")
    case (Inl e)
    then show ?thesis by (simp add: render_all_Cons del: render_all.simps)
  next
    case (Inr s)
    then show ?thesis
      by (cases "render_all pad today xs") (simp_all add: render_all_Cons Cons.IH del: render_all.simps)
  qed
qed

lemma search_phones_render:
  "search_phones pad today v rec ps result =
     prepend result (render_all pad today (map (\<lambda>p. (rec, False)) (filter (str_in v) ps)))"
proof (induction ps arbitrary: result)
  case Nil
  show ?case by simp
next
  case (Cons p ps)
  show ?case
    by (cases "str_Record pad today rec") (simp_all add: Cons.IH render_all_Cons del: render_all.simps)
qed

lemma search_items_render:
  "search_items pad today v items result = prepend result (render_all pad today (occurrences v items))"
proof (induction items arbitrary: result)
  case Nil
  show ?case by (simp add: occurrences_def)
next
  case (Cons item items)
  obtain n rec where item: "item = (n, rec)" by (cases item)
  let ?by_name = "if str_in (lower v) (lower n) then [(rec, True)] else []"
  let ?by_phone = "map (\<lambda>p. (rec, False)) (filter (str_in v) (phones rec))"
  have occ: "occurrences v (item # items) = ?by_name @ ?by_phone @ occurrences v items"
    by (simp add: occurrences_def appearances_def item)
  have first: "(if str_in (lower v) (lower n) then
              (case str_Record pad today rec of
                 Inl e \<Rightarrow> Inl e
               | Inr s \<Rightarrow> Inr (result @ s @ [newline]))
            else Inr result) = prepend result (render_all pad today ?by_name)"
    by (simp split: sum.split)
  have "search_items pad today v (item # items) result =
      (case prepend result (render_all pad today ?by_name) of
         Inl e \<Rightarrow> Inl e
       | Inr result1 \<Rightarrow>
          (case prepend result1 (render_all pad today ?by_phone) of
             Inl e \<Rightarrow> Inl e
           | Inr result2 \<Rightarrow> prepend result2 (render_all pad today (occurrences v items))))"
    unfolding item search_items.simps first search_phones_render Cons.IH ..
  also have "\<dots> = prepend result (render_all pad today (?by_name @ ?by_phone @ occurrences v items))"
    unfolding render_all_append case_prepend
    by (cases "render_all pad today ?by_name") (simp_all add: case_prepend)
  finally show ?case unfolding occ .
qed

lemma str_Record_nonempty: "str_Record pad today r = Inr s \<Longrightarrow> s \<noteq> []"
  by (auto simp: str_Record_def split: sum.splits)

lemma render_all_empty:
  "render_all pad today xs = Inr s \<Longrightarrow> (s = [] \<longleftrightarrow> xs = [])"
  by (cases xs) (auto split: sum.splits dest: str_Record_nonempty)

lemma search_render:
  "search pad today book v =
     (if length v < 3 then Inr (Some usage_msg)
      else case render_all pad today (occurrences v book) of
             Inl e \<Rightarrow> Inl e
           | Inr s \<Rightarrow> Inr (if occurrences v book = [] then None else Some s))"
  by (auto simp: search_def search_items_render split: sum.splits dest: render_all_empty)

text \<open>
  With regular birthdays only, every record can be rendered and \<^verbatim>\<open>search\<close> returns.
\<close>

lemma str_Record_regular:
  assumes "ordinary_day today" "\<forall>b. birthday r = Some b \<longrightarrow> regular_birthday b"
  shows "\<exists>s. str_Record pad today r = Inr s"
proof (cases "birthday r")
  case None
  then show ?thesis by (simp add: str_Record_def days_to_birthday_def)
next
  case (Some b)
  with assms(2) have "regular_birthday b" by simp
  from days_to_birthday_regular(1) [OF assms(1) Some this]
  obtain days where "days_to_birthday today r = Inr days" by (auto split: if_splits)
  then show ?thesis by (simp add: str_Record_def)
qed

lemma render_all_regular:
  assumes "ordinary_day today" "\<forall>x \<in> set xs. \<forall>b. birthday (fst x) = Some b \<longrightarrow> regular_birthday b"
  shows "\<exists>s. render_all pad today xs = Inr s"
  using assms(2)
proof (induction xs)
  case Nil
  show ?case by simp
next
  case (Cons x xs)
  obtain r f where x: "x = (r, f)" by (cases x)
  from Cons.prems have "\<forall>b. birthday r = Some b \<longrightarrow> regular_birthday b" by (simp add: x)
  then obtain s where "str_Record pad today r = Inr s"
    using str_Record_regular [OF assms(1)] by blast
  moreover from Cons obtain t where "render_all pad today xs = Inr t" by auto
  ultimately show ?case by (simp add: x)
qed

lemma occurrences_records: "x \<in> set (occurrences v book) \<Longrightarrow> fst x \<in> snd ` set book"
  by (force simp: occurrences_def appearances_def split: if_splits)

lemma search_regular:
  assumes "ordinary_day today" "regular_book book"
  shows "\<exists>result. search pad today book v = Inr result"
proof -
  have "\<forall>x \<in> set (occurrences v book). \<forall>b. birthday (fst x) = Some b \<longrightarrow> regular_birthday b"
  proof (intro ballI allI impI)
    fix x b
    assume "x \<in> set (occurrences v book)" "birthday (fst x) = Some b"
    then obtain item where "item \<in> set book" "birthday (snd item) = Some b"
      using occurrences_records [of x v book] by auto
    with assms(2) show "regular_birthday b" by (auto simp: regular_book_def)
  qed
  then obtain s where "render_all pad today (occurrences v book) = Inr s"
    using render_all_regular [OF assms(1)] by blast
  then show ?thesis by (simp add: search_render)
qed

text \<open>
  What \<^verbatim>\<open>search\<close> returns. A term of fewer than 3 characters gives the usage message. A
  longer term gives the text of the appearances of the store's items, in the order of
  the store: an item appears once when its name contains the term without regard to
  case, and once more for each phone that contains the term; when there is no
  appearance the result is \<^verbatim>\<open>None\<close>. The search returns normally when no birthday of
  the store is on 29 February; an exception of \<^verbatim>\<open>str(rec)\<close> for a record that appears
  is the outcome of the search.
\<close>

lemma search_result:
  "(length v < 3 \<longrightarrow> search pad today book v = Inr (Some usage_msg)) \<and>
   (3 \<le> length v \<longrightarrow>
      search pad today book v =
        (case render_all pad today (occurrences v book) of
           Inl e \<Rightarrow> Inl e
         | Inr s \<Rightarrow> Inr (if occurrences v book = [] then None else Some s))) \<and>
   (3 \<le> length v \<and> occurrences v book = [] \<longrightarrow> search pad today book v = Inr None) \<and>
   (ordinary_day today \<and> regular_book book \<longrightarrow> (\<exists>result. search pad today book v = Inr result)) \<and>
   occurrences v book =
     concat (map (\<lambda>(n, rec). (if str_in (lower v) (lower n) then [(rec, True)] else [])
                    @ map (\<lambda>p. (rec, False)) (filter (str_in v) (phones rec))) book)"
proof -
  have short: "length v < 3 \<longrightarrow> search pad today book v = Inr (Some usage_msg)"
    by (simp add: search_render)
  have long: "3 \<le> length v \<longrightarrow>
      search pad today book v =
        (case render_all pad today (occurrences v book) of
           Inl e \<Rightarrow> Inl e
         | Inr s \<Rightarrow> Inr (if occurrences v book = [] then None else Some s))"
    by (simp add: search_render)
  have none: "3 \<le> length v \<and> occurrences v book = [] \<longrightarrow> search pad today book v = Inr None"
    by (simp add: search_render)
  have occ: "occurrences v book =
     concat (map (\<lambda>(n, rec). (if str_in (lower v) (lower n) then [(rec, True)] else [])
                    @ map (\<lambda>p. (rec, False)) (filter (str_in v) (phones rec))) book)"
  proof -
    have "appearances v = (\<lambda>(n, rec). (if str_in (lower v) (lower n) then [(rec, True)] else [])
                    @ map (\<lambda>p. (rec, False)) (filter (str_in v) (phones rec)))"
      by (auto simp: appearances_def fun_eq_iff)
    then show ?thesis by (simp add: occurrences_def)
  qed
  have returns: "ordinary_day today \<and> regular_book book \<longrightarrow> (\<exists>result. search pad today book v = Inr result)"
    using search_regular by blast
  from short long none returns occ show ?thesis by blast
qed

lemma search_examples:
  "search False (Date 2025 3 10) [(''John'', john)] ''Joh''
     = Inr (Some (''John,            0501234567; 0671230000,                None, None,                     None, None'' @ [newline])) \<and>
   search False (Date 2025 3 10) [(''John'', john)] ''Jo'' = Inr (Some usage_msg) \<and>
   search False (Date 2025 3 10) [(''John'', john)] ''123''
     = Inr (Some (''John,            0501234567; 0671230000,                None, None,                     None, None''
        @ ''John,            0501234567; 0671230000,                None, None,                     None, None'')) \<and>
   search False (Date 2025 3 10) [(''John'', john)] ''xyz'' = Inr None \<and>
   ordinary_day (Date 2025 3 10) \<and> regular_book [(''John'', john)]"
proof -
  have reg: "ordinary_day (Date 2025 3 10)" "regular_book [(''John'', john)]"
    by (simp_all add: ordinary_day_def valid_date_def days_in_month_def regular_book_def john_def Record_init_def)
  have l: "length ''Jo'' < 3" "3 \<le> length ''Joh''" "3 \<le> length ''123''" "3 \<le> length ''xyz''"
    by simp_all
  have o: "occurrences ''xyz'' [(''John'', john)] = []"
    by code_simp
  have r1: "(case render_all False (Date 2025 3 10) (occurrences ''Joh'' [(''John'', john)]) of
           Inl e \<Rightarrow> Inl e
         | Inr s \<Rightarrow> Inr (if occurrences ''Joh'' [(''John'', john)] = [] then None else Some s))
     = Inr (Some (''John,            0501234567; 0671230000,                None, None,                     None, None'' @ [newline]))"
    by code_simp
  have r2: "(case render_all False (Date 2025 3 10) (occurrences ''123'' [(''John'', john)]) of
           Inl e \<Rightarrow> Inl e
         | Inr s \<Rightarrow> Inr (if occurrences ''123'' [(''John'', john)] = [] then None else Some s))
     = Inr (Some (''John,            0501234567; 0671230000,                None, None,                     None, None''
        @ ''John,            0501234567; 0671230000,                None, None,                     None, None''))"
    by code_simp
  have a: "search False (Date 2025 3 10) [(''John'', john)] ''Joh''
     = Inr (Some (''John,            0501234567; 0671230000,                None, None,                     None, None'' @ [newline]))"
    using search_result [of "''Joh''" False "Date 2025 3 10" "[(''John'', john)]"] l(2)
    unfolding r1 by blast
  have b: "search False (Date 2025 3 10) [(''John'', john)] ''Jo'' = Inr (Some usage_msg)"
    using search_result [of "''Jo''" False "Date 2025 3 10" "[(''John'', john)]"] l(1) by blast
  have c: "search False (Date 2025 3 10) [(''John'', john)] ''123''
     = Inr (Some (''John,            0501234567; 0671230000,                None, None,                     None, None''
        @ ''John,            0501234567; 0671230000,                None, None,                     None, None''))"
    using search_result [of "''123''" False "Date 2025 3 10" "[(''John'', john)]"] l(3)
    unfolding r2 by blast
  have d: "search False (Date 2025 3 10) [(''John'', john)] ''xyz'' = Inr None"
    using search_result [of "''xyz''" False "Date 2025 3 10" "[(''John'', john)]"] l(4) o by blast
  from a b c d reg show ?thesis by blast
qed

text \<open>
  C6: \<^verbatim>\<open>search\<close> should give, for every store and every term of 3 characters or more,
  the records whose name contains the term without regard to case and, once more for
  each such phone, the records with a phone that contains the term. It raises instead
  when such a record has its birthday on 29 February and the year of today, or the next
  one, is not a leap year: \<^verbatim>\<open>str(rec)\<close> calls \<^verbatim>\<open>days_to_birthday\<close> (see C1). The store holds
  John and Annabel, whose birthday "2024.02.29" \<^verbatim>\<open>add_birthday\<close> accepts. The term "aNN" is
  in the name of Annabel without regard to case, and "811" is in her phone: each search
  raises, on 2025-03-01 and on 2024-03-01, whatever the padding of the year. The term
  "jOH" finds John, whose text needs no anniversary. (With no birthday on 29 February in
  the store the search does what the claim says: \<open>search_result\<close> above.)
\<close>

theorem search_leap_day:
  "add_birthday zeros (snd (add_phone (Record_init ''Annabel'') ''0981112233'')) (ustr ''2024.02.29'')
     = (Inr (), annabel) \<and>
   add_record (add_record [] john) annabel = contacts \<and>
   occurrences ''aNN'' contacts = [(annabel, True)] \<and>
   search False (Date 2025 3 1) contacts ''aNN'' = Inl (ValueError ''day is out of range for month'') \<and>
   search True (Date 2025 3 1) contacts ''aNN'' = Inl (ValueError ''day is out of range for month'') \<and>
   search False (Date 2024 3 1) contacts ''aNN'' = Inl (ValueError ''day is out of range for month'') \<and>
   occurrences ''811'' contacts = [(annabel, False)] \<and>
   search False (Date 2025 3 1) contacts ''811'' = Inl (ValueError ''day is out of range for month'') \<and>
   occurrences ''jOH'' contacts = [(john, True)] \<and>
   search False (Date 2025 3 1) contacts ''jOH''
     = Inr (Some (''John,            0501234567; 0671230000,                None, None,                     None, None'' @ [newline]))"
  by code_simp

end
